theory Spec2Isabelle
  imports Main "HOL-Library.Product_Lexorder"
begin

section \<open>Data model\<close>

text \<open>
  A cell is a pair of Python integers \<open>(x, y)\<close>. The class \<open>Maze\<close> (identical in
  \<open>basic/maze.py\<close> and \<open>extension/maze.py\<close> up to comments) keeps the two dimensions and
  two sets of wall entries.
\<close>

type_synonym cell = "int \<times> int"

record maze =
  width :: int
  height :: int
  horizontal_walls :: "(int \<times> int) set"
  vertical_walls :: "(int \<times> int) set"

text \<open>\<open>Maze.__init__\<close>: both wall sets start empty.\<close>

definition Maze :: "int \<Rightarrow> int \<Rightarrow> maze" where
  "Maze w h = \<lparr>width = w, height = h, horizontal_walls = {}, vertical_walls = {}\<rparr>"

definition add_horizontal_wall :: "maze \<Rightarrow> int \<Rightarrow> int \<Rightarrow> maze" where
  "add_horizontal_wall m x_cordinates horizontal_line =
     m\<lparr>horizontal_walls := insert (x_cordinates, horizontal_line) (horizontal_walls m)\<rparr>"

definition add_vertical_wall :: "maze \<Rightarrow> int \<Rightarrow> int \<Rightarrow> maze" where
  "add_vertical_wall m y_cordiates vertical_line =
     m\<lparr>vertical_walls := insert (y_cordiates, vertical_line) (vertical_walls m)\<rparr>"

text \<open>
  The runner is a dictionary with the keys \<open>x\<close>, \<open>y\<close> and \<open>orientation\<close>; the record
  fields carry the names of the accessors of \<open>runner.py\<close>. The orientation strings
  \<open>"N"\<close>, \<open>"E"\<close>, \<open>"S"\<close>, \<open>"W"\<close> are the four values of the specification's Orientation.
\<close>

datatype orientation = N | E | S | W

record runner =
  get_x :: int
  get_y :: int
  get_orientation :: orientation

definition create_runner :: "int \<Rightarrow> int \<Rightarrow> orientation \<Rightarrow> runner" where
  "create_runner x y orient = \<lparr>get_x = x, get_y = y, get_orientation = orient\<rparr>"

text \<open>Exceptions raised by the code, with the message of a \<open>ValueError\<close>.\<close>

datatype error = ValueError string | KeyError

section \<open>Walls of a cell\<close>

text \<open>\<open>Maze.get_walls\<close>: the result is \<open>(north, east, south, west)\<close>.\<close>

definition get_walls :: "maze \<Rightarrow> int \<Rightarrow> int \<Rightarrow> bool \<times> bool \<times> bool \<times> bool" where
  "get_walls m x y =
     (let north = (y = height m - 1);
          south = (y = 0);
          west = (x = 0);
          east = (x = width m - 1);
          north = (if (x, y + 1) \<in> horizontal_walls m then True else north);
          south = (if (x, y) \<in> horizontal_walls m then True else south);
          east = (if (y, x + 1) \<in> vertical_walls m then True else east);
          west = (if (y, x) \<in> vertical_walls m then True else west)
      in (north, east, south, west))"

text \<open>Indexing the 4-tuple returned by \<open>get_walls\<close>, as \<open>walls[i]\<close> does.\<close>

fun wall_at :: "bool \<times> bool \<times> bool \<times> bool \<Rightarrow> nat \<Rightarrow> bool" where
  "wall_at (north, east, south, west) i =
     (if i = 0 then north else if i = 1 then east else if i = 2 then south else west)"

text \<open>The dictionary \<open>side_map\<close> of \<open>sense_walls\<close>: indices of (left, front, right).\<close>

fun side_map :: "orientation \<Rightarrow> nat \<times> nat \<times> nat" where
  "side_map N = (3, 0, 1)"
| "side_map E = (0, 1, 2)"
| "side_map S = (1, 2, 3)"
| "side_map W = (2, 3, 0)"

definition sense_walls :: "maze \<Rightarrow> runner \<Rightarrow> bool \<times> bool \<times> bool" where
  "sense_walls m r =
     (let walls = get_walls m (get_x r) (get_y r) in
      case side_map (get_orientation r) of
        (left_i, front_i, right_i) \<Rightarrow>
          (wall_at walls left_i, wall_at walls front_i, wall_at walls right_i))"

section \<open>Runner transitions\<close>

text \<open>\<open>Maze.go_straight\<close>: raises \<open>ValueError\<close> when the front wall is present.\<close>

definition go_straight :: "maze \<Rightarrow> runner \<Rightarrow> error + runner" where
  "go_straight m r =
     (case sense_walls m r of
        (_, front, _) \<Rightarrow>
          if front then Inl (ValueError ''Cannot go straight, wall in front of runne'')
          else
            (let x = get_x r; y = get_y r; orient = get_orientation r in
             case orient of
               N \<Rightarrow> Inr \<lparr>get_x = x, get_y = y + 1, get_orientation = orient\<rparr>
             | S \<Rightarrow> Inr \<lparr>get_x = x, get_y = y - 1, get_orientation = orient\<rparr>
             | E \<Rightarrow> Inr \<lparr>get_x = x + 1, get_y = y, get_orientation = orient\<rparr>
             | W \<Rightarrow> Inr \<lparr>get_x = x - 1, get_y = y, get_orientation = orient\<rparr>))"

text \<open>The list \<open>orientations\<close> and Python's \<open>list.index\<close> (first position, as an int).\<close>

definition orientations :: "orientation list" where
  "orientations = [N, E, S, W]"

fun list_index :: "'a list \<Rightarrow> 'a \<Rightarrow> int option" where
  "list_index [] v = None"
| "list_index (a # as) v =
     (if a = v then Some 0 else map_option (\<lambda>i. i + 1) (list_index as v))"

text \<open>
  \<open>Maze._turn\<close>: any direction other than \<open>"Left"\<close> and \<open>"Right"\<close> raises \<open>ValueError\<close>.
  \<open>(idx - 1) % 4\<close> is Python's floored remainder, which \<open>mod\<close> on \<open>int\<close> is as well.
\<close>

definition maze_turn :: "maze \<Rightarrow> runner \<Rightarrow> string \<Rightarrow> error + runner" where
  "maze_turn m r direction =
     (case list_index orientations (get_orientation r) of
        None \<Rightarrow> Inl (ValueError ''not in list'')
      | Some idx \<Rightarrow>
          if direction = ''Left'' then
            Inr \<lparr>get_x = get_x r, get_y = get_y r,
                 get_orientation = orientations ! nat ((idx - 1) mod 4)\<rparr>
          else if direction = ''Right'' then
            Inr \<lparr>get_x = get_x r, get_y = get_y r,
                 get_orientation = orientations ! nat ((idx + 1) mod 4)\<rparr>
          else Inl (ValueError ''Direction must be left or right''))"

text \<open>
  \<open>turn\<close> of \<open>runner.py\<close>: the same rotation, but the \<open>else\<close> branch keeps the current
  orientation and nothing is raised.
\<close>

definition turn :: "runner \<Rightarrow> string \<Rightarrow> error + runner" where
  "turn r direction =
     (let current = get_orientation r in
      case list_index orientations current of
        None \<Rightarrow> Inl (ValueError ''not in list'')
      | Some idx \<Rightarrow>
          (let new_orientation =
             (if direction = ''Left'' then orientations ! nat ((idx - 1) mod 4)
              else if direction = ''Right'' then orientations ! nat ((idx + 1) mod 4)
              else current)
           in Inr \<lparr>get_x = get_x r, get_y = get_y r, get_orientation = new_orientation\<rparr>))"

text \<open>\<open>forward\<close> of \<open>runner.py\<close>: the dictionary \<open>deltas\<close> and the unchecked translation.\<close>

fun deltas :: "orientation \<Rightarrow> int \<times> int" where
  "deltas N = (0, 1)"
| "deltas E = (1, 0)"
| "deltas S = (0, -1)"
| "deltas W = (-1, 0)"

definition forward :: "runner \<Rightarrow> runner" where
  "forward r =
     (case deltas (get_orientation r) of
        (dx, dy) \<Rightarrow>
          \<lparr>get_x = get_x r + dx, get_y = get_y r + dy, get_orientation = get_orientation r\<rparr>)"

section \<open>The left-hand rule\<close>

text \<open>The dictionary \<open>opposite\<close> of the backward branch of \<open>Maze.move\<close>.\<close>

fun opposite :: "orientation \<Rightarrow> orientation" where
  "opposite N = S"
| "opposite S = N"
| "opposite E = W"
| "opposite W = E"

text \<open>The backward branch of \<open>Maze.move\<close>: no wall is consulted.\<close>

definition go_back :: "runner \<Rightarrow> runner" where
  "go_back r =
     (let x = get_x r; y = get_y r; orient = get_orientation r in
      case orient of
        N \<Rightarrow> \<lparr>get_x = x, get_y = y - 1, get_orientation = opposite orient\<rparr>
      | S \<Rightarrow> \<lparr>get_x = x, get_y = y + 1, get_orientation = opposite orient\<rparr>
      | E \<Rightarrow> \<lparr>get_x = x - 1, get_y = y, get_orientation = opposite orient\<rparr>
      | W \<Rightarrow> \<lparr>get_x = x + 1, get_y = y, get_orientation = opposite orient\<rparr>)"

text \<open>\<open>Maze.move\<close>: an exception of \<open>_turn\<close> or \<open>go_straight\<close> propagates.\<close>

definition move :: "maze \<Rightarrow> runner \<Rightarrow> error + (runner \<times> string)" where
  "move m r =
     (case sense_walls m r of
        (left_wall, front_wall, right_wall) \<Rightarrow>
          if \<not> left_wall then
            (case maze_turn m r ''Left'' of
               Inl e \<Rightarrow> Inl e
             | Inr turned \<Rightarrow>
                 (case go_straight m turned of
                    Inl e \<Rightarrow> Inl e
                  | Inr new_runner \<Rightarrow> Inr (new_runner, ''LF'')))
          else if \<not> front_wall then
            (case go_straight m r of
               Inl e \<Rightarrow> Inl e
             | Inr new_runner \<Rightarrow> Inr (new_runner, ''F''))
          else if \<not> right_wall then
            (case maze_turn m r ''Right'' of
               Inl e \<Rightarrow> Inl e
             | Inr turned \<Rightarrow>
                 (case go_straight m turned of
                    Inl e \<Rightarrow> Inl e
                  | Inr new_runner \<Rightarrow> Inr (new_runner, ''RF'')))
          else Inr (go_back r, ''B''))"

text \<open>
  \<open>Maze.explore\<close>: the \<open>while\<close> loop has no bound, so a run that never reaches the goal is
  the value \<open>None\<close>; an exception of \<open>move\<close> ends the run with \<open>Inl\<close>.
\<close>

type_synonym log_entry = "int \<times> int \<times> string"

partial_function (option) explore_loop ::
  "maze \<Rightarrow> cell \<Rightarrow> runner \<Rightarrow> log_entry list \<Rightarrow> (error + log_entry list) option" where
  "explore_loop m goal r log =
     (if (get_x r, get_y r) \<noteq> goal then
        (case move m r of
           Inl e \<Rightarrow> Some (Inl e)
         | Inr (new_runner, actions) \<Rightarrow>
             explore_loop m goal new_runner (log @ [(get_x r, get_y r, actions)]))
      else Some (Inr log))"

definition explore :: "maze \<Rightarrow> runner \<Rightarrow> cell option \<Rightarrow> (error + log_entry list) option" where
  "explore m r goal =
     explore_loop m (case goal of None \<Rightarrow> (width m - 1, height m - 1) | Some g \<Rightarrow> g) r []"

section \<open>Neighbours\<close>

text \<open>\<open>Maze._get_neighbours\<close> of \<open>basic/maze.py\<close>: every candidate is bound-checked.\<close>

definition basic_get_neighbours :: "maze \<Rightarrow> int \<Rightarrow> int \<Rightarrow> cell list" where
  "basic_get_neighbours m x y =
     (case get_walls m x y of
        (north, east, south, west) \<Rightarrow>
          (if \<not> north \<and> y + 1 < height m then [(x, y + 1)] else []) @
          (if \<not> east \<and> x + 1 < width m then [(x + 1, y)] else []) @
          (if \<not> south \<and> y - 1 \<ge> 0 then [(x, y - 1)] else []) @
          (if \<not> west \<and> x - 1 \<ge> 0 then [(x - 1, y)] else []))"

text \<open>\<open>Maze._get_neighbours\<close> of \<open>extension/maze.py\<close>: only the walls are consulted.\<close>

definition ext_get_neighbours :: "maze \<Rightarrow> int \<Rightarrow> int \<Rightarrow> cell list" where
  "ext_get_neighbours m x y =
     (case get_walls m x y of
        (north, east, south, west) \<Rightarrow>
          (if \<not> north then [(x, y + 1)] else []) @
          (if \<not> east then [(x + 1, y)] else []) @
          (if \<not> south then [(x, y - 1)] else []) @
          (if \<not> west then [(x - 1, y)] else []))"

text \<open>A cell of the grid: \<open>0 \<le> x < width\<close> and \<open>0 \<le> y < height\<close>.\<close>

fun in_range :: "maze \<Rightarrow> cell \<Rightarrow> bool" where
  "in_range m (x, y) = (0 \<le> x \<and> x < width m \<and> 0 \<le> y \<and> y < height m)"


section \<open>Shortest paths\<close>

text \<open>
  The defaults of the optional arguments of \<open>shortest_path\<close>: \<open>(0, 0)\<close> for \<open>starting\<close>
  and \<open>(width - 1, height - 1)\<close> for \<open>goal\<close>.
\<close>

definition default_start :: "cell option \<Rightarrow> cell" where
  "default_start starting = (case starting of None \<Rightarrow> (0, 0) | Some c \<Rightarrow> c)"

definition default_target :: "maze \<Rightarrow> cell option \<Rightarrow> cell" where
  "default_target m goal =
     (case goal of None \<Rightarrow> (width m - 1, height m - 1) | Some c \<Rightarrow> c)"

text \<open>
  The reconstruction loop shared by both \<open>shortest_path\<close> methods: \<open>parent[node]\<close> raises
  \<open>KeyError\<close> on a missing key, and a cyclic parent map would make the loop run forever.
\<close>

partial_function (option) walk_back ::
  "(cell \<rightharpoonup> cell) \<Rightarrow> cell \<Rightarrow> cell \<Rightarrow> cell list \<Rightarrow> (error + cell list) option" where
  "walk_back par start node path =
     (if node \<noteq> start then
        (case par node of
           None \<Rightarrow> Some (Inl KeyError)
         | Some p \<Rightarrow> walk_back par start p (path @ [node]))
      else Some (Inr path))"

definition reconstruct ::
  "(cell \<rightharpoonup> cell) \<Rightarrow> cell \<Rightarrow> cell \<Rightarrow> (error + cell list) option" where
  "reconstruct par start target =
     (case walk_back par start target [] of
        None \<Rightarrow> None
      | Some (Inl e) \<Rightarrow> Some (Inl e)
      | Some (Inr path) \<Rightarrow> Some (Inr (rev (path @ [start]))))"

subsection \<open>Breadth-first search (\<open>basic/maze.py\<close>)\<close>

record bfs_state =
  queue :: "cell list"
  visited :: "cell set"
  parent :: "cell \<rightharpoonup> cell"

text \<open>One round of the \<open>for\<close> loop over the neighbours of \<open>current\<close>.\<close>

definition bfs_visit :: "cell \<Rightarrow> bfs_state \<Rightarrow> cell \<Rightarrow> bfs_state" where
  "bfs_visit current s neighbour =
     (if neighbour \<notin> visited s then
        s\<lparr>queue := queue s @ [neighbour],
          visited := insert neighbour (visited s),
          parent := (parent s)(neighbour \<mapsto> current)\<rparr>
      else s)"

text \<open>
  The \<open>while queue\<close> loop. The result pairs the flag \<open>found\<close> with the state at the exit:
  \<open>True\<close> after the \<open>break\<close>, \<open>False\<close> when the queue ran empty.
\<close>

partial_function (option) bfs_loop ::
  "maze \<Rightarrow> cell \<Rightarrow> bfs_state \<Rightarrow> (bool \<times> bfs_state) option" where
  "bfs_loop m target s =
     (if queue s \<noteq> [] then
        (let current = hd (queue s); s1 = s\<lparr>queue := tl (queue s)\<rparr> in
         if current = target then Some (True, s1)
         else bfs_loop m target
                (foldl (bfs_visit current) s1
                   (basic_get_neighbours m (fst current) (snd current))))
      else Some (False, s))"

definition basic_shortest_path ::
  "maze \<Rightarrow> cell option \<Rightarrow> cell option \<Rightarrow> (error + cell list) option" where
  "basic_shortest_path m starting goal =
     (let start = default_start starting; target = default_target m goal
      in case bfs_loop m target \<lparr>queue = [start], visited = {start}, parent = Map.empty\<rparr> of
           None \<Rightarrow> None
         | Some (found, s) \<Rightarrow>
             if \<not> found then Some (Inr []) else reconstruct (parent s) start target)"

subsection \<open>A* (\<open>extension/maze.py\<close>)\<close>

text \<open>The Manhattan distance \<open>h\<close>.\<close>

definition h :: "cell \<Rightarrow> cell \<Rightarrow> int" where
  "h a b = \<bar>fst a - fst b\<bar> + \<bar>snd a - snd b\<bar>"

text \<open>
  The heap of \<open>heapq\<close> holds tuples \<open>(f_cost, node)\<close>, compared lexicographically.
  It is kept as the sorted list of its entries: \<open>heappush\<close> inserts an entry and
  \<open>heappop\<close> takes the least one out, which is all that \<open>heapq\<close> promises.
\<close>

definition heappush :: "(int \<times> cell) list \<Rightarrow> int \<times> cell \<Rightarrow> (int \<times> cell) list" where
  "heappush heap item = insort item heap"

record astar_state =
  open_set :: "(int \<times> cell) list"
  g_cost :: "cell \<rightharpoonup> int"
  astar_parent :: "cell \<rightharpoonup> cell"

text \<open>
  One round of the \<open>for\<close> loop over the neighbours of \<open>current\<close>; \<open>g_cost[current]\<close>
  raises \<open>KeyError\<close> on a missing key, and an exception ends the rounds that follow.
\<close>

definition astar_relax ::
  "cell \<Rightarrow> cell \<Rightarrow> error + astar_state \<Rightarrow> cell \<Rightarrow> error + astar_state" where
  "astar_relax target current acc neighbour =
     (case acc of
        Inl e \<Rightarrow> Inl e
      | Inr s \<Rightarrow>
          (case g_cost s current of
             None \<Rightarrow> Inl KeyError
           | Some gc \<Rightarrow>
               (let tentative_g = gc + 1 in
                if (case g_cost s neighbour of None \<Rightarrow> True | Some gn \<Rightarrow> tentative_g < gn)
                then
                  Inr (s\<lparr>open_set :=
                           heappush (open_set s) (tentative_g + h neighbour target, neighbour),
                         g_cost := (g_cost s)(neighbour \<mapsto> tentative_g),
                         astar_parent := (astar_parent s)(neighbour \<mapsto> current)\<rparr>)
                else Inr s)))"

partial_function (option) astar_loop ::
  "maze \<Rightarrow> cell \<Rightarrow> astar_state \<Rightarrow> (error + astar_state) option" where
  "astar_loop m target s =
     (if open_set s \<noteq> [] then
        (let current = snd (hd (open_set s)); s1 = s\<lparr>open_set := tl (open_set s)\<rparr> in
         if current = target then Some (Inr s1)
         else
           (case foldl (astar_relax target current) (Inr s1)
                   (ext_get_neighbours m (fst current) (snd current)) of
              Inl e \<Rightarrow> Some (Inl e)
            | Inr s2 \<Rightarrow> astar_loop m target s2))
      else Some (Inr s))"

definition ext_shortest_path ::
  "maze \<Rightarrow> cell option \<Rightarrow> cell option \<Rightarrow> (error + cell list) option" where
  "ext_shortest_path m starting goal =
     (let start = default_start starting; target = default_target m goal
      in case astar_loop m target
                \<lparr>open_set = [(0, start)], g_cost = [start \<mapsto> 0], astar_parent = Map.empty\<rparr> of
           None \<Rightarrow> None
         | Some (Inl e) \<Rightarrow> Some (Inl e)
         | Some (Inr s) \<Rightarrow>
             if target \<notin> dom (g_cost s) then Some (Inr [])
             else reconstruct (astar_parent s) start target)"

section \<open>Vocabulary of the properties\<close>

text \<open>
  \<open>passage m a b\<close>: the cell \<open>b\<close> is one step north, east, south or west of \<open>a\<close> and
  \<open>get_walls\<close> reports no wall on that side of \<open>a\<close>.
\<close>

definition passage :: "maze \<Rightarrow> cell \<Rightarrow> cell \<Rightarrow> bool" where
  "passage m a b =
     (case get_walls m (fst a) (snd a) of
        (north, east, south, west) \<Rightarrow>
          (\<not> north \<and> b = (fst a, snd a + 1)) \<or>
          (\<not> east \<and> b = (fst a + 1, snd a)) \<or>
          (\<not> south \<and> b = (fst a, snd a - 1)) \<or>
          (\<not> west \<and> b = (fst a - 1, snd a)))"

text \<open>A sequence of cells in which every consecutive pair is joined by a passage.\<close>

fun chain :: "maze \<Rightarrow> cell list \<Rightarrow> bool" where
  "chain m [] = True"
| "chain m [a] = True"
| "chain m (a # b # cs) = (passage m a b \<and> chain m (b # cs))"

text \<open>A path from \<open>s\<close> to \<open>g\<close>, both ends included.\<close>

definition path_between :: "maze \<Rightarrow> cell \<Rightarrow> cell \<Rightarrow> cell list \<Rightarrow> bool" where
  "path_between m s g p = (p \<noteq> [] \<and> hd p = s \<and> last p = g \<and> chain m p)"

text \<open>The cycle N, E, S, W, N of the orientations, one step forward and one step backward.\<close>

fun cycle_next :: "orientation \<Rightarrow> orientation" where
  "cycle_next N = E"
| "cycle_next E = S"
| "cycle_next S = W"
| "cycle_next W = N"

fun cycle_prev :: "orientation \<Rightarrow> orientation" where
  "cycle_prev N = W"
| "cycle_prev E = N"
| "cycle_prev S = E"
| "cycle_prev W = S"

text \<open>
  The runner and the action that \<open>move\<close> returns, for following a run of \<open>explore\<close>
  step by step.
\<close>

definition move_runner :: "maze \<Rightarrow> runner \<Rightarrow> runner" where
  "move_runner m r = (case move m r of Inl e \<Rightarrow> r | Inr (new_runner, actions) \<Rightarrow> new_runner)"

definition move_action :: "maze \<Rightarrow> runner \<Rightarrow> string" where
  "move_action m r = (case move m r of Inl e \<Rightarrow> [] | Inr (new_runner, actions) \<Rightarrow> actions)"

section \<open>Invariants of the two searches\<close>

text \<open>
  The loop invariant of the breadth-first search, over a distance function \<open>g\<close> that the
  code does not store. \<open>bfs_tree\<close>: the visited cells lie in the maze and form a tree under
  \<open>parent\<close>, rooted at the start, in which \<open>g\<close> is the depth. \<open>bfs_front\<close>: the queue holds
  visited cells in order of \<open>g\<close>, on the levels \<open>lo\<close> and \<open>lo + 1\<close>. \<open>bfs_done\<close>: a visited
  cell that has left the queue is not the target, lies on a level up to \<open>lo\<close>, and (unless it
  is the cell being expanded, in \<open>X\<close>) has all its neighbours visited, at most one level deeper.
\<close>

definition bfs_tree :: "maze \<Rightarrow> cell \<Rightarrow> (cell \<Rightarrow> nat) \<Rightarrow> bfs_state \<Rightarrow> bool" where
  "bfs_tree m start g s \<longleftrightarrow>
     start \<in> visited s \<and> g start = 0 \<and> (\<forall>c \<in> visited s. in_range m c) \<and>
     (\<forall>n \<in> visited s. n \<noteq> start \<longrightarrow>
        (\<exists>p. parent s n = Some p \<and> p \<in> visited s \<and> passage m p n \<and> g n = g p + 1))"

definition bfs_front :: "(cell \<Rightarrow> nat) \<Rightarrow> nat \<Rightarrow> bfs_state \<Rightarrow> bool" where
  "bfs_front g lo s \<longleftrightarrow>
     set (queue s) \<subseteq> visited s \<and> sorted (map g (queue s)) \<and>
     (\<forall>c \<in> set (queue s). lo \<le> g c \<and> g c \<le> lo + 1)"

definition bfs_done ::
  "maze \<Rightarrow> cell \<Rightarrow> (cell \<Rightarrow> nat) \<Rightarrow> cell set \<Rightarrow> nat \<Rightarrow> bfs_state \<Rightarrow> bool" where
  "bfs_done m target g X lo s \<longleftrightarrow>
     (\<forall>n \<in> visited s. n \<notin> set (queue s) \<longrightarrow>
        n \<noteq> target \<and> g n \<le> lo \<and>
        (n \<notin> X \<longrightarrow> (\<forall>b. passage m n b \<longrightarrow> b \<in> visited s \<and> g b \<le> g n + 1)))"

definition bfs_inv ::
  "maze \<Rightarrow> cell \<Rightarrow> cell \<Rightarrow> (cell \<Rightarrow> nat) \<Rightarrow> cell set \<Rightarrow> nat \<Rightarrow> bfs_state \<Rightarrow> bool" where
  "bfs_inv m start target g X lo s \<longleftrightarrow>
     bfs_tree m start g s \<and> bfs_front g lo s \<and> bfs_done m target g X lo s"

text \<open>
  The loop invariant of A*. \<open>astar_tree\<close>: the cells with a cost lie in the maze, the start
  has cost 0, every cost is below the number of cells with a cost, and \<open>parent\<close> leads from
  each such cell to one of smaller cost, one passage away. \<open>astar_heap\<close>: the open set is
  sorted (its head is its minimum, as \<open>heappop\<close> returns it) and the priority of an entry
  is at least the present cost of its cell plus the heuristic. \<open>astar_open\<close>: a cell with a
  cost (unless it is being expanded, in \<open>X\<close>) either has all its neighbours relaxed or still
  has an entry in the open set, of priority at most its cost plus the heuristic.
  \<open>astar_pot\<close> is the quantity that each change of a cost decreases.
\<close>

abbreviation gval :: "astar_state \<Rightarrow> cell \<Rightarrow> int" where
  "gval s c \<equiv> the (g_cost s c)"

definition astar_tree :: "maze \<Rightarrow> cell \<Rightarrow> astar_state \<Rightarrow> bool" where
  "astar_tree m start s \<longleftrightarrow>
     g_cost s start = Some 0 \<and>
     (\<forall>c \<in> dom (g_cost s).
        in_range m c \<and> 0 \<le> gval s c \<and> gval s c < int (card (dom (g_cost s)))) \<and>
     (\<forall>n \<in> dom (g_cost s). n \<noteq> start \<longrightarrow>
        (\<exists>p. astar_parent s n = Some p \<and> p \<in> dom (g_cost s) \<and> passage m p n \<and>
             gval s p + 1 \<le> gval s n))"

definition astar_heap :: "cell \<Rightarrow> cell \<Rightarrow> astar_state \<Rightarrow> bool" where
  "astar_heap start target s \<longleftrightarrow>
     sorted (open_set s) \<and>
     (\<forall>e \<in> set (open_set s).
        snd e \<in> dom (g_cost s) \<and> (snd e = start \<or> gval s (snd e) + h (snd e) target \<le> fst e))"

definition astar_open :: "maze \<Rightarrow> cell \<Rightarrow> cell set \<Rightarrow> astar_state \<Rightarrow> bool" where
  "astar_open m target X s \<longleftrightarrow>
     (\<forall>n \<in> dom (g_cost s). n \<notin> X \<longrightarrow>
        (\<forall>b. passage m n b \<longrightarrow> b \<in> dom (g_cost s) \<and> gval s b \<le> gval s n + 1) \<or>
        (\<exists>f. (f, n) \<in> set (open_set s) \<and> f \<le> gval s n + h n target))"

definition astar_inv :: "maze \<Rightarrow> cell \<Rightarrow> cell \<Rightarrow> cell set \<Rightarrow> astar_state \<Rightarrow> bool" where
  "astar_inv m start target X s \<longleftrightarrow>
     astar_tree m start s \<and> astar_heap start target s \<and> astar_open m target X s"

definition astar_pot :: "maze \<Rightarrow> astar_state \<Rightarrow> nat" where
  "astar_pot m s =
     (\<Sum>c \<in> {c. in_range m c}.
        if c \<in> dom (g_cost s) then nat (gval s c) else card {c. in_range m c})"

section \<open>Walls and neighbours\<close>

lemma get_walls_simp:
  "get_walls m x y =
     (y = height m - 1 \<or> (x, y + 1) \<in> horizontal_walls m,
      x = width m - 1 \<or> (y, x + 1) \<in> vertical_walls m,
      y = 0 \<or> (x, y) \<in> horizontal_walls m,
      x = 0 \<or> (y, x) \<in> vertical_walls m)"
  by (auto simp: get_walls_def Let_def)

theorem get_walls_without_internal_walls:
  assumes "horizontal_walls m = {}" and "vertical_walls m = {}"
  shows "(0 < x \<and> x < width m - 1 \<and> 0 < y \<and> y < height m - 1 \<longrightarrow>
            get_walls m x y = (False, False, False, False)) \<and>
         fst (get_walls m x (height m - 1)) \<and>
         fst (snd (snd (get_walls m x 0))) \<and>
         snd (snd (snd (get_walls m 0 y))) \<and>
         fst (snd (get_walls m (width m - 1) y))"
  using assms by (simp add: get_walls_simp)

theorem get_walls_without_internal_walls_witness:
  "get_walls (Maze 3 3) 1 1 = (False, False, False, False) \<and>
   fst (get_walls (Maze 3 3) 1 2) \<and>
   fst (snd (snd (get_walls (Maze 3 3) 1 0))) \<and>
   snd (snd (snd (get_walls (Maze 3 3) 0 1))) \<and>
   fst (snd (get_walls (Maze 3 3) 2 1))"
  using get_walls_without_internal_walls [of "Maze 3 3" 1 1]
  by (simp add: Maze_def)

lemma open_side_in_range:
  assumes "in_range m (x, y)" and "get_walls m x y = (north, east, south, west)"
  shows "\<not> north \<Longrightarrow> y + 1 < height m"
    and "\<not> east \<Longrightarrow> x + 1 < width m"
    and "\<not> south \<Longrightarrow> 0 \<le> y - 1"
    and "\<not> west \<Longrightarrow> 0 \<le> x - 1"
  using assms by (simp_all add: get_walls_simp)

theorem neighbours_policies_agree:
  assumes "in_range m (x, y)"
  shows "basic_get_neighbours m x y = ext_get_neighbours m x y \<and>
         set (basic_get_neighbours m x y) = set (ext_get_neighbours m x y) \<and>
         (\<forall>c \<in> set (basic_get_neighbours m x y). in_range m c) \<and>
         (\<forall>c \<in> set (ext_get_neighbours m x y). in_range m c)"
proof -
  obtain north east south west where gw: "get_walls m x y = (north, east, south, west)"
    by (cases "get_walls m x y") auto
  note os = open_side_in_range [OF assms gw]
  have eq: "basic_get_neighbours m x y = ext_get_neighbours m x y"
    using os by (simp add: basic_get_neighbours_def ext_get_neighbours_def gw)
  have "\<forall>c \<in> set (ext_get_neighbours m x y). in_range m c"
    using os assms by (auto simp: ext_get_neighbours_def gw)
  with eq show ?thesis by simp
qed

theorem neighbours_policies_agree_witness:
  "in_range (add_vertical_wall (Maze 2 2) 0 1) (0, 0) \<and>
   basic_get_neighbours (add_vertical_wall (Maze 2 2) 0 1) 0 0 = [(0, 1)] \<and>
   ext_get_neighbours (add_vertical_wall (Maze 2 2) 0 1) 0 0 = [(0, 1)] \<and>
   in_range (add_vertical_wall (Maze 2 2) 0 1) (0, 1)"
proof -
  have r: "in_range (add_vertical_wall (Maze 2 2) 0 1) (0, 0)"
    by (simp add: Maze_def add_vertical_wall_def)
  have b: "basic_get_neighbours (add_vertical_wall (Maze 2 2) 0 1) 0 0 = [(0, 1)]"
    by (simp add: Maze_def add_vertical_wall_def basic_get_neighbours_def get_walls_simp)
  have "ext_get_neighbours (add_vertical_wall (Maze 2 2) 0 1) 0 0 = [(0, 1)]"
    using neighbours_policies_agree [OF r] unfolding b by (elim conjE) (rule sym)
  moreover have "in_range (add_vertical_wall (Maze 2 2) 0 1) (0, 1)"
    by (simp add: Maze_def add_vertical_wall_def)
  ultimately show ?thesis using r b by blast
qed

section \<open>Runner transitions and the left-hand rule\<close>

lemma sense_walls_cases:
  "sense_walls m r =
     (case get_walls m (get_x r) (get_y r) of
        (north, east, south, west) \<Rightarrow>
          (case get_orientation r of
             N \<Rightarrow> (west, north, east)
           | E \<Rightarrow> (north, east, south)
           | S \<Rightarrow> (east, south, west)
           | W \<Rightarrow> (south, west, north)))"
  by (cases "get_orientation r"; cases "get_walls m (get_x r) (get_y r)")
     (simp_all add: sense_walls_def)

lemma maze_turn_cases:
  "maze_turn m r direction =
     (if direction = ''Left'' then Inr (r\<lparr>get_orientation := cycle_prev (get_orientation r)\<rparr>)
      else if direction = ''Right'' then
        Inr (r\<lparr>get_orientation := cycle_next (get_orientation r)\<rparr>)
      else Inl (ValueError ''Direction must be left or right''))"
  by (cases r; cases "get_orientation r") (simp_all add: maze_turn_def orientations_def)

lemma turn_cases:
  "turn r direction =
     Inr (if direction = ''Left'' then r\<lparr>get_orientation := cycle_prev (get_orientation r)\<rparr>
          else if direction = ''Right'' then
            r\<lparr>get_orientation := cycle_next (get_orientation r)\<rparr>
          else r)"
  by (cases r; cases "get_orientation r") (simp_all add: turn_def orientations_def)

lemma forward_cases:
  "forward r =
     (case get_orientation r of
        N \<Rightarrow> r\<lparr>get_y := get_y r + 1\<rparr>
      | E \<Rightarrow> r\<lparr>get_x := get_x r + 1\<rparr>
      | S \<Rightarrow> r\<lparr>get_y := get_y r - 1\<rparr>
      | W \<Rightarrow> r\<lparr>get_x := get_x r - 1\<rparr>)"
  by (cases r; cases "get_orientation r") (simp_all add: forward_def)

lemma go_straight_cases:
  "go_straight m r =
     (if fst (snd (sense_walls m r))
      then Inl (ValueError ''Cannot go straight, wall in front of runne'')
      else Inr (forward r))"
  by (cases r; cases "get_orientation r"; cases "sense_walls m r")
     (simp_all add: go_straight_def forward_def)

lemma front_after_turn:
  "fst (snd (sense_walls m (r\<lparr>get_orientation := cycle_prev (get_orientation r)\<rparr>))) =
     fst (sense_walls m r)"
  "fst (snd (sense_walls m (r\<lparr>get_orientation := cycle_next (get_orientation r)\<rparr>))) =
     snd (snd (sense_walls m r))"
  by (cases "get_orientation r"; cases "get_walls m (get_x r) (get_y r)";
      simp add: sense_walls_cases)+

lemma go_back_cases:
  "go_back r =
     \<lparr>get_x = get_x r - fst (deltas (get_orientation r)),
      get_y = get_y r - snd (deltas (get_orientation r)),
      get_orientation = opposite (get_orientation r)\<rparr>"
  by (cases "get_orientation r") (simp_all add: go_back_def)

lemma move_cases:
  "move m r =
     (case sense_walls m r of
        (left_wall, front_wall, right_wall) \<Rightarrow>
          if \<not> left_wall then
            Inr (forward (r\<lparr>get_orientation := cycle_prev (get_orientation r)\<rparr>), ''LF'')
          else if \<not> front_wall then Inr (forward r, ''F'')
          else if \<not> right_wall then
            Inr (forward (r\<lparr>get_orientation := cycle_next (get_orientation r)\<rparr>), ''RF'')
          else Inr (go_back r, ''B''))"
proof -
  obtain l f rt where sw: "sense_walls m r = (l, f, rt)"
    by (cases "sense_walls m r") auto
  have fl: "fst (snd (sense_walls m (r\<lparr>get_orientation := cycle_prev (get_orientation r)\<rparr>))) = l"
    and fr: "fst (snd (sense_walls m (r\<lparr>get_orientation := cycle_next (get_orientation r)\<rparr>))) = rt"
    by (simp_all add: front_after_turn sw)
  show ?thesis
    unfolding move_def sw maze_turn_cases go_straight_cases
    by (simp add: fl fr sw)
qed

lemma move_total: "\<exists>new_runner actions. move m r = Inr (new_runner, actions)"
  by (cases "sense_walls m r") (simp add: move_cases)

text \<open>
  C7. \<open>go_straight\<close> raises its \<open>ValueError\<close> exactly when the wall in front of the runner
  (north, east, south or west of its cell, by orientation) is present; otherwise it returns
  the runner moved one cell in the facing direction (N: y+1, S: y-1, E: x+1, W: x-1), which
  is what \<open>forward\<close> of \<open>runner.py\<close> computes, with the orientation unchanged.
\<close>

theorem go_straight_blocked_iff_front_wall:
  "(let front = (case get_walls m (get_x r) (get_y r) of
                   (north, east, south, west) \<Rightarrow>
                     (case get_orientation r of
                        N \<Rightarrow> north | E \<Rightarrow> east | S \<Rightarrow> south | W \<Rightarrow> west))
    in ((\<exists>e. go_straight m r = Inl e) = front) \<and>
       go_straight m r =
         (if front then Inl (ValueError ''Cannot go straight, wall in front of runne'')
          else Inr (case get_orientation r of
                      N \<Rightarrow> r\<lparr>get_y := get_y r + 1\<rparr>
                    | S \<Rightarrow> r\<lparr>get_y := get_y r - 1\<rparr>
                    | E \<Rightarrow> r\<lparr>get_x := get_x r + 1\<rparr>
                    | W \<Rightarrow> r\<lparr>get_x := get_x r - 1\<rparr>)) \<and>
       (\<not> front \<longrightarrow> go_straight m r = Inr (forward r)))"
  by (cases "get_orientation r"; cases "get_walls m (get_x r) (get_y r)")
     (simp_all add: go_straight_cases sense_walls_cases forward_cases)

theorem go_straight_blocked_iff_front_wall_witness:
  "go_straight (Maze 2 2) (create_runner 0 0 N) = Inr (create_runner 0 1 N) \<and>
   go_straight (Maze 2 2) (create_runner 0 1 N) =
     Inl (ValueError ''Cannot go straight, wall in front of runne'')"
  using go_straight_blocked_iff_front_wall [where m = "Maze 2 2" and r = "create_runner 0 0 N"]
    go_straight_blocked_iff_front_wall [where m = "Maze 2 2" and r = "create_runner 0 1 N"]
  by (simp add: Maze_def create_runner_def get_walls_simp)

text \<open>
  C10. \<open>move\<close> never raises: it always returns a runner and an action. After the turn to
  the left the front wall is the wall sensed on the left before, after the turn to the
  right it is the one sensed on the right, so \<open>go_straight\<close> is only called with its front
  wall absent, and \<open>_turn\<close> is only called with \<open>"Left"\<close> or \<open>"Right"\<close>, which it accepts.
\<close>

theorem move_never_raises:
  "(\<exists>new_runner actions. move m r = Inr (new_runner, actions)) \<and>
   (\<exists>turned. maze_turn m r ''Left'' = Inr turned \<and>
      fst (snd (sense_walls m turned)) = fst (sense_walls m r)) \<and>
   (\<exists>turned. maze_turn m r ''Right'' = Inr turned \<and>
      fst (snd (sense_walls m turned)) = snd (snd (sense_walls m r)))"
  by (simp add: move_total maze_turn_cases front_after_turn)

lemma move_table:
  "move m r =
     (case get_walls m (get_x r) (get_y r) of
        (north, east, south, west) \<Rightarrow>
          (case get_orientation r of
             N \<Rightarrow>
               if \<not> west then
                 Inr (\<lparr>get_x = get_x r - 1, get_y = get_y r, get_orientation = W\<rparr>, ''LF'')
               else if \<not> north then
                 Inr (\<lparr>get_x = get_x r, get_y = get_y r + 1, get_orientation = N\<rparr>, ''F'')
               else if \<not> east then
                 Inr (\<lparr>get_x = get_x r + 1, get_y = get_y r, get_orientation = E\<rparr>, ''RF'')
               else
                 Inr (\<lparr>get_x = get_x r, get_y = get_y r - 1, get_orientation = S\<rparr>, ''B'')
           | E \<Rightarrow>
               if \<not> north then
                 Inr (\<lparr>get_x = get_x r, get_y = get_y r + 1, get_orientation = N\<rparr>, ''LF'')
               else if \<not> east then
                 Inr (\<lparr>get_x = get_x r + 1, get_y = get_y r, get_orientation = E\<rparr>, ''F'')
               else if \<not> south then
                 Inr (\<lparr>get_x = get_x r, get_y = get_y r - 1, get_orientation = S\<rparr>, ''RF'')
               else
                 Inr (\<lparr>get_x = get_x r - 1, get_y = get_y r, get_orientation = W\<rparr>, ''B'')
           | S \<Rightarrow>
               if \<not> east then
                 Inr (\<lparr>get_x = get_x r + 1, get_y = get_y r, get_orientation = E\<rparr>, ''LF'')
               else if \<not> south then
                 Inr (\<lparr>get_x = get_x r, get_y = get_y r - 1, get_orientation = S\<rparr>, ''F'')
               else if \<not> west then
                 Inr (\<lparr>get_x = get_x r - 1, get_y = get_y r, get_orientation = W\<rparr>, ''RF'')
               else
                 Inr (\<lparr>get_x = get_x r, get_y = get_y r + 1, get_orientation = N\<rparr>, ''B'')
           | W \<Rightarrow>
               if \<not> south then
                 Inr (\<lparr>get_x = get_x r, get_y = get_y r - 1, get_orientation = S\<rparr>, ''LF'')
               else if \<not> west then
                 Inr (\<lparr>get_x = get_x r - 1, get_y = get_y r, get_orientation = W\<rparr>, ''F'')
               else if \<not> north then
                 Inr (\<lparr>get_x = get_x r, get_y = get_y r + 1, get_orientation = N\<rparr>, ''RF'')
               else
                 Inr (\<lparr>get_x = get_x r + 1, get_y = get_y r, get_orientation = E\<rparr>, ''B'')))"
  by (cases r; cases "get_orientation r"; cases "get_walls m (get_x r) (get_y r)")
     (simp_all add: move_cases sense_walls_cases forward_cases go_back_cases)

lemma move_runner_action: "move m r = Inr (move_runner m r, move_action m r)"
  using move_total [of m r] by (auto simp: move_runner_def move_action_def)

lemma explore_loop_steps:
  assumes "\<forall>i<n. (get_x ((move_runner m ^^ i) r), get_y ((move_runner m ^^ i) r)) \<noteq> goal"
  shows "explore_loop m goal r log =
           explore_loop m goal ((move_runner m ^^ n) r)
             (log @ map (\<lambda>i. (get_x ((move_runner m ^^ i) r), get_y ((move_runner m ^^ i) r),
                              move_action m ((move_runner m ^^ i) r))) [0..<n])"
  using assms
proof (induction n arbitrary: r log)
  case 0
  show ?case by simp
next
  case (Suc n)
  let ?r1 = "move_runner m r"
  have sw: "(move_runner m ^^ Suc k) r = (move_runner m ^^ k) ?r1" for k
    by (simp only: funpow_Suc_right o_apply)
  from Suc.prems have here: "(get_x r, get_y r) \<noteq> goal"
    by force
  have later: "\<forall>i<n. (get_x ((move_runner m ^^ i) ?r1), get_y ((move_runner m ^^ i) ?r1)) \<noteq> goal"
  proof (intro allI impI)
    fix i assume "i < n"
    then have "Suc i < Suc n" by simp
    with Suc.prems have
      "(get_x ((move_runner m ^^ Suc i) r), get_y ((move_runner m ^^ Suc i) r)) \<noteq> goal"
      by (rule_tac allE [of _ "Suc i"]) auto
    then show "(get_x ((move_runner m ^^ i) ?r1), get_y ((move_runner m ^^ i) ?r1)) \<noteq> goal"
      unfolding sw .
  qed
  have "explore_loop m goal r log =
        explore_loop m goal ?r1 (log @ [(get_x r, get_y r, move_action m r)])"
    using here by (subst explore_loop.simps) (simp add: move_runner_action)
  also have "\<dots> = explore_loop m goal ((move_runner m ^^ n) ?r1)
        ((log @ [(get_x r, get_y r, move_action m r)]) @
         map (\<lambda>i. (get_x ((move_runner m ^^ i) ?r1), get_y ((move_runner m ^^ i) ?r1),
                   move_action m ((move_runner m ^^ i) ?r1))) [0..<n])"
    by (rule Suc.IH [OF later])
  also have "(log @ [(get_x r, get_y r, move_action m r)]) @
         map (\<lambda>i. (get_x ((move_runner m ^^ i) ?r1), get_y ((move_runner m ^^ i) ?r1),
                   move_action m ((move_runner m ^^ i) ?r1))) [0..<n] =
        log @ map (\<lambda>i. (get_x ((move_runner m ^^ i) r), get_y ((move_runner m ^^ i) r),
                        move_action m ((move_runner m ^^ i) r))) [0..<Suc n]"
    unfolding sw [symmetric]
    by (simp only: upt_conv_Cons [of 0 "Suc n"] map_Suc_upt [symmetric] list.map map_map o_def)
       simp
  finally show ?case
    unfolding sw .
qed

lemma explore_reaches_goal:
  assumes "\<forall>i<n. (get_x ((move_runner m ^^ i) r), get_y ((move_runner m ^^ i) r)) \<noteq> goal"
    and "(get_x ((move_runner m ^^ n) r), get_y ((move_runner m ^^ n) r)) = goal"
  shows "explore m r (Some goal) =
           Some (Inr (map (\<lambda>i. (get_x ((move_runner m ^^ i) r), get_y ((move_runner m ^^ i) r),
                                move_action m ((move_runner m ^^ i) r))) [0..<n]))"
proof -
  have "explore_loop m goal ((move_runner m ^^ n) r) log = Some (Inr log)" for log
    using assms(2) by (subst explore_loop.simps) simp
  with explore_loop_steps [OF assms(1), of "[]"] show ?thesis
    by (simp add: explore_def)
qed

text \<open>
  C4. The priority of \<open>move\<close>, written out for each orientation with the walls of the cell
  as \<open>get_walls\<close> returns them: the left wall absent gives the turn to the left (N to W,
  E to N, S to E, W to S), a step in the new direction and \<open>"LF"\<close>; else the front wall
  absent gives a step forward and \<open>"F"\<close>; else the right wall absent gives the turn to the
  right (N to E, E to S, S to W, W to N), a step in the new direction and \<open>"RF"\<close>; else the
  runner moves one cell against its facing direction, its orientation becomes the opposite
  one (N to S, S to N, E to W, W to E), and the action is \<open>"B"\<close>. When the runner is at
  the goal for the first time after \<open>n\<close> moves, \<open>explore\<close> returns the log whose entry for
  step \<open>i\<close> is the position of the runner before its move number \<open>i\<close>, with the action of
  that move.
\<close>

theorem move_left_hand_priority:
  "move m r =
     (case get_walls m (get_x r) (get_y r) of
        (north, east, south, west) \<Rightarrow>
          (case get_orientation r of
             N \<Rightarrow>
               if \<not> west then
                 Inr (\<lparr>get_x = get_x r - 1, get_y = get_y r, get_orientation = W\<rparr>, ''LF'')
               else if \<not> north then
                 Inr (\<lparr>get_x = get_x r, get_y = get_y r + 1, get_orientation = N\<rparr>, ''F'')
               else if \<not> east then
                 Inr (\<lparr>get_x = get_x r + 1, get_y = get_y r, get_orientation = E\<rparr>, ''RF'')
               else
                 Inr (\<lparr>get_x = get_x r, get_y = get_y r - 1, get_orientation = S\<rparr>, ''B'')
           | E \<Rightarrow>
               if \<not> north then
                 Inr (\<lparr>get_x = get_x r, get_y = get_y r + 1, get_orientation = N\<rparr>, ''LF'')
               else if \<not> east then
                 Inr (\<lparr>get_x = get_x r + 1, get_y = get_y r, get_orientation = E\<rparr>, ''F'')
               else if \<not> south then
                 Inr (\<lparr>get_x = get_x r, get_y = get_y r - 1, get_orientation = S\<rparr>, ''RF'')
               else
                 Inr (\<lparr>get_x = get_x r - 1, get_y = get_y r, get_orientation = W\<rparr>, ''B'')
           | S \<Rightarrow>
               if \<not> east then
                 Inr (\<lparr>get_x = get_x r + 1, get_y = get_y r, get_orientation = E\<rparr>, ''LF'')
               else if \<not> south then
                 Inr (\<lparr>get_x = get_x r, get_y = get_y r - 1, get_orientation = S\<rparr>, ''F'')
               else if \<not> west then
                 Inr (\<lparr>get_x = get_x r - 1, get_y = get_y r, get_orientation = W\<rparr>, ''RF'')
               else
                 Inr (\<lparr>get_x = get_x r, get_y = get_y r + 1, get_orientation = N\<rparr>, ''B'')
           | W \<Rightarrow>
               if \<not> south then
                 Inr (\<lparr>get_x = get_x r, get_y = get_y r - 1, get_orientation = S\<rparr>, ''LF'')
               else if \<not> west then
                 Inr (\<lparr>get_x = get_x r - 1, get_y = get_y r, get_orientation = W\<rparr>, ''F'')
               else if \<not> north then
                 Inr (\<lparr>get_x = get_x r, get_y = get_y r + 1, get_orientation = N\<rparr>, ''RF'')
               else
                 Inr (\<lparr>get_x = get_x r + 1, get_y = get_y r, get_orientation = E\<rparr>, ''B''))) \<and>
   ((\<forall>i<n. (get_x ((move_runner m ^^ i) r), get_y ((move_runner m ^^ i) r)) \<noteq> goal) \<and>
    (get_x ((move_runner m ^^ n) r), get_y ((move_runner m ^^ n) r)) = goal \<longrightarrow>
    explore m r (Some goal) =
      Some (Inr (map (\<lambda>i. (get_x ((move_runner m ^^ i) r), get_y ((move_runner m ^^ i) r),
                           move_action m ((move_runner m ^^ i) r))) [0..<n])))"
  using move_table [of m r] explore_reaches_goal [of n m r goal] by blast

text \<open>
  The four branches on concrete mazes: boxed in on all sides in the maze of one cell, a
  runner facing east backs out to the west and then faces west; in the maze of two cells
  side by side the runner at \<open>(0, 0)\<close> goes to \<open>(1, 0)\<close> with \<open>"RF"\<close>, \<open>"F"\<close> or \<open>"LF"\<close> as it
  faces north, east or south, and its exploration to \<open>(1, 0)\<close> logs the cell \<open>(0, 0)\<close>.
\<close>

theorem move_left_hand_priority_witness:
  "move (Maze 1 1) (create_runner 0 0 E) = Inr (create_runner (- 1) 0 W, ''B'') \<and>
   move (Maze 2 1) (create_runner 0 0 N) = Inr (create_runner 1 0 E, ''RF'') \<and>
   move (Maze 2 1) (create_runner 0 0 E) = Inr (create_runner 1 0 E, ''F'') \<and>
   move (Maze 2 1) (create_runner 0 0 S) = Inr (create_runner 1 0 E, ''LF'') \<and>
   explore (Maze 2 1) (create_runner 0 0 S) (Some (1, 0)) = Some (Inr [(0, 0, ''LF'')])"
proof -
  have b: "move (Maze 1 1) (create_runner 0 0 E) = Inr (create_runner (- 1) 0 W, ''B'')"
    using move_left_hand_priority [where m = "Maze 1 1" and r = "create_runner 0 0 E"]
    by (simp add: Maze_def create_runner_def get_walls_simp)
  have rf: "move (Maze 2 1) (create_runner 0 0 N) = Inr (create_runner 1 0 E, ''RF'')"
    using move_left_hand_priority [where m = "Maze 2 1" and r = "create_runner 0 0 N"]
    by (simp add: Maze_def create_runner_def get_walls_simp)
  have f: "move (Maze 2 1) (create_runner 0 0 E) = Inr (create_runner 1 0 E, ''F'')"
    using move_left_hand_priority [where m = "Maze 2 1" and r = "create_runner 0 0 E"]
    by (simp add: Maze_def create_runner_def get_walls_simp)
  have lf: "move (Maze 2 1) (create_runner 0 0 S) = Inr (create_runner 1 0 E, ''LF'')"
    using move_left_hand_priority [where m = "Maze 2 1" and r = "create_runner 0 0 S"]
    by (simp add: Maze_def create_runner_def get_walls_simp)
  have mr: "move_runner (Maze 2 1) (create_runner 0 0 S) = create_runner 1 0 E"
    and ma: "move_action (Maze 2 1) (create_runner 0 0 S) = ''LF''"
    by (simp_all add: move_runner_def move_action_def lf)
  have "explore (Maze 2 1) (create_runner 0 0 S) (Some (1, 0)) = Some (Inr [(0, 0, ''LF'')])"
    using move_left_hand_priority
      [where m = "Maze 2 1" and r = "create_runner 0 0 S" and n = 1 and goal = "(1, 0)"]
    by (simp add: mr ma) (simp add: create_runner_def)
  with b rf f lf show ?thesis by blast
qed

text \<open>
  C3. \<open>Maze._turn\<close> rotates by one step of the cycle and raises for every other direction;
  \<open>turn\<close> of \<open>runner.py\<close> returns the runner unchanged for a direction such as \<open>"Up"\<close>
  instead of raising.
\<close>

theorem turn_invalid_direction_returns_runner:
  "turn (create_runner 0 0 N) ''Up'' = Inr (create_runner 0 0 N) \<and>
   maze_turn (Maze 5 5) (create_runner 0 0 N) ''Up'' =
     Inl (ValueError ''Direction must be left or right'')"
  by (simp add: turn_cases maze_turn_cases create_runner_def)

section \<open>Exploration from a cell with one open neighbour\<close>

lemma explore_one_step:
  assumes "move m r = Inr (new_runner, actions)"
    and "(get_x r, get_y r) \<noteq> goal"
    and "(get_x new_runner, get_y new_runner) = goal"
  shows "explore m r (Some goal) = Some (Inr [(get_x r, get_y r, actions)])"
proof -
  have "explore_loop m goal r [] = explore_loop m goal new_runner [(get_x r, get_y r, actions)]"
    using assms(1,2) by (subst explore_loop.simps) simp
  also have "\<dots> = Some (Inr [(get_x r, get_y r, actions)])"
    using assms(3) by (subst explore_loop.simps) simp
  finally show ?thesis
    by (simp add: explore_def)
qed

lemma move_to_single_open_neighbour:
  assumes "ext_get_neighbours m (get_x r) (get_y r) = [g]"
  shows "\<exists>new_runner.
           move m r =
             Inr (new_runner,
                  case get_orientation r of
                    N \<Rightarrow>
                      if g = (get_x r - 1, get_y r) then ''LF''
                      else if g = (get_x r, get_y r + 1) then ''F''
                      else if g = (get_x r + 1, get_y r) then ''RF'' else ''B''
                  | E \<Rightarrow>
                      if g = (get_x r, get_y r + 1) then ''LF''
                      else if g = (get_x r + 1, get_y r) then ''F''
                      else if g = (get_x r, get_y r - 1) then ''RF'' else ''B''
                  | S \<Rightarrow>
                      if g = (get_x r + 1, get_y r) then ''LF''
                      else if g = (get_x r, get_y r - 1) then ''F''
                      else if g = (get_x r - 1, get_y r) then ''RF'' else ''B''
                  | W \<Rightarrow>
                      if g = (get_x r, get_y r - 1) then ''LF''
                      else if g = (get_x r - 1, get_y r) then ''F''
                      else if g = (get_x r, get_y r + 1) then ''RF'' else ''B'') \<and>
           (get_x new_runner, get_y new_runner) = g \<and> (get_x r, get_y r) \<noteq> g \<and>
           \<bar>fst g - get_x r\<bar> + \<bar>snd g - get_y r\<bar> = 1"
proof -
  obtain north east south west where
    gw: "get_walls m (get_x r) (get_y r) = (north, east, south, west)"
    by (cases "get_walls m (get_x r) (get_y r)") auto
  from assms consider
    (n) "\<not> north" "east" "south" "west" "g = (get_x r, get_y r + 1)" |
    (e) "north" "\<not> east" "south" "west" "g = (get_x r + 1, get_y r)" |
    (s) "north" "east" "\<not> south" "west" "g = (get_x r, get_y r - 1)" |
    (w) "north" "east" "south" "\<not> west" "g = (get_x r - 1, get_y r)"
    by (auto simp: ext_get_neighbours_def gw split: if_splits)
  then show ?thesis
  proof cases
    case n
    then show ?thesis
      by (cases "get_orientation r") (simp_all add: move_table gw)
  next
    case e
    then show ?thesis
      by (cases "get_orientation r") (simp_all add: move_table gw)
  next
    case s
    then show ?thesis
      by (cases "get_orientation r") (simp_all add: move_table gw)
  next
    case w
    then show ?thesis
      by (cases "get_orientation r") (simp_all add: move_table gw)
  qed
qed

text \<open>
  C9 as amended. When the cell of the runner has exactly one open neighbouring cell \<open>g\<close>,
  which makes it the only cell visited on the way to \<open>g\<close>, \<open>explore\<close> to \<open>g\<close> returns a log
  whose length is the Manhattan distance from the start to \<open>g\<close>: one entry, at the position
  of the start. Its action is \<open>"F"\<close> when \<open>g\<close> is the cell in front of the runner, and
  \<open>"LF"\<close>, \<open>"RF"\<close> or \<open>"B"\<close> when \<open>g\<close> is the cell on its left, on its right or behind it.
  \<open>explore\<close> to the cell of the runner itself returns the empty log.
\<close>

theorem explore_single_open_neighbour:
  assumes "ext_get_neighbours m (get_x r) (get_y r) = [g]"
  shows "\<exists>log actions.
           explore m r (Some g) = Some (Inr log) \<and>
           log = [(get_x r, get_y r, actions)] \<and>
           int (length log) = \<bar>fst g - get_x r\<bar> + \<bar>snd g - get_y r\<bar> \<and>
           actions =
             (case get_orientation r of
                N \<Rightarrow>
                  if g = (get_x r - 1, get_y r) then ''LF''
                  else if g = (get_x r, get_y r + 1) then ''F''
                  else if g = (get_x r + 1, get_y r) then ''RF'' else ''B''
              | E \<Rightarrow>
                  if g = (get_x r, get_y r + 1) then ''LF''
                  else if g = (get_x r + 1, get_y r) then ''F''
                  else if g = (get_x r, get_y r - 1) then ''RF'' else ''B''
              | S \<Rightarrow>
                  if g = (get_x r + 1, get_y r) then ''LF''
                  else if g = (get_x r, get_y r - 1) then ''F''
                  else if g = (get_x r - 1, get_y r) then ''RF'' else ''B''
              | W \<Rightarrow>
                  if g = (get_x r, get_y r - 1) then ''LF''
                  else if g = (get_x r - 1, get_y r) then ''F''
                  else if g = (get_x r, get_y r + 1) then ''RF'' else ''B'') \<and>
           explore m r (Some (get_x r, get_y r)) = Some (Inr [])"
proof -
  from move_to_single_open_neighbour [OF assms] obtain new_runner actions where
    mv: "move m r = Inr (new_runner, actions)"
    and act: "actions =
             (case get_orientation r of
                N \<Rightarrow>
                  if g = (get_x r - 1, get_y r) then ''LF''
                  else if g = (get_x r, get_y r + 1) then ''F''
                  else if g = (get_x r + 1, get_y r) then ''RF'' else ''B''
              | E \<Rightarrow>
                  if g = (get_x r, get_y r + 1) then ''LF''
                  else if g = (get_x r + 1, get_y r) then ''F''
                  else if g = (get_x r, get_y r - 1) then ''RF'' else ''B''
              | S \<Rightarrow>
                  if g = (get_x r + 1, get_y r) then ''LF''
                  else if g = (get_x r, get_y r - 1) then ''F''
                  else if g = (get_x r - 1, get_y r) then ''RF'' else ''B''
              | W \<Rightarrow>
                  if g = (get_x r, get_y r - 1) then ''LF''
                  else if g = (get_x r - 1, get_y r) then ''F''
                  else if g = (get_x r, get_y r + 1) then ''RF'' else ''B'')"
    and at: "(get_x new_runner, get_y new_runner) = g" "(get_x r, get_y r) \<noteq> g"
    and dist: "\<bar>fst g - get_x r\<bar> + \<bar>snd g - get_y r\<bar> = 1"
    by blast
  have run: "explore m r (Some g) = Some (Inr [(get_x r, get_y r, actions)])"
    by (rule explore_one_step [OF mv at(2) at(1)])
  have stay: "explore m r (Some (get_x r, get_y r)) = Some (Inr [])"
    unfolding explore_def option.case by (subst explore_loop.simps) simp
  have len: "int (length [(get_x r, get_y r, actions)]) =
               \<bar>fst g - get_x r\<bar> + \<bar>snd g - get_y r\<bar>"
    using dist by simp
  from run len act stay show ?thesis
    by blast
qed

theorem explore_single_open_neighbour_witness:
  "ext_get_neighbours (Maze 2 1) 0 0 = [(1, 0)] \<and>
   explore (Maze 2 1) (create_runner 0 0 W) (Some (1, 0)) = Some (Inr [(0, 0, ''B'')]) \<and>
   explore (Maze 2 1) (create_runner 0 0 E) (Some (1, 0)) = Some (Inr [(0, 0, ''F'')])"
proof -
  have nb: "ext_get_neighbours (Maze 2 1) 0 0 = [(1, 0)]"
    by (simp add: ext_get_neighbours_def get_walls_simp Maze_def)
  have w: "ext_get_neighbours (Maze 2 1) (get_x (create_runner 0 0 W))
             (get_y (create_runner 0 0 W)) = [(1, 0)]"
    and e: "ext_get_neighbours (Maze 2 1) (get_x (create_runner 0 0 E))
             (get_y (create_runner 0 0 E)) = [(1, 0)]"
    using nb by (simp_all add: create_runner_def)
  from explore_single_open_neighbour [OF w]
  have "explore (Maze 2 1) (create_runner 0 0 W) (Some (1, 0)) = Some (Inr [(0, 0, ''B'')])"
    by (simp add: create_runner_def)
  moreover from explore_single_open_neighbour [OF e]
  have "explore (Maze 2 1) (create_runner 0 0 E) (Some (1, 0)) = Some (Inr [(0, 0, ''F'')])"
    by (simp add: create_runner_def)
  ultimately show ?thesis using nb by blast
qed

text \<open>
  The claim C9 as stated fails: in the maze of two cells side by side each cell has exactly
  one open neighbour, and a runner at \<open>(0, 0)\<close> facing north reaches the goal \<open>(1, 0)\<close> with
  a log of one entry whose action is \<open>"RF"\<close>.
\<close>

theorem explore_corridor_counterexample:
  "basic_get_neighbours (Maze 2 1) 0 0 = [(1, 0)] \<and>
   basic_get_neighbours (Maze 2 1) 1 0 = [(0, 0)] \<and>
   ext_get_neighbours (Maze 2 1) 0 0 = [(1, 0)] \<and>
   ext_get_neighbours (Maze 2 1) 1 0 = [(0, 0)] \<and>
   explore (Maze 2 1) (create_runner 0 0 N) (Some (1, 0)) = Some (Inr [(0, 0, ''RF'')]) \<and>
   ''RF'' \<noteq> ''F''"
proof -
  have mv: "move (Maze 2 1) (create_runner 0 0 N) = Inr (create_runner 1 0 E, ''RF'')"
    by (simp add: move_cases Maze_def create_runner_def sense_walls_cases get_walls_simp
        forward_cases)
  have "explore (Maze 2 1) (create_runner 0 0 N) (Some (1, 0)) = Some (Inr [(0, 0, ''RF'')])"
    unfolding explore_def option.case
    by (subst explore_loop.simps, simp add: mv, subst explore_loop.simps)
       (simp_all add: create_runner_def)
  moreover have "basic_get_neighbours (Maze 2 1) 0 0 = [(1, 0)]"
    "basic_get_neighbours (Maze 2 1) 1 0 = [(0, 0)]"
    by (simp_all add: basic_get_neighbours_def get_walls_simp Maze_def)
  moreover have "ext_get_neighbours (Maze 2 1) 0 0 = [(1, 0)]"
    "ext_get_neighbours (Maze 2 1) 1 0 = [(0, 0)]"
    by (simp_all add: ext_get_neighbours_def get_walls_simp Maze_def)
  ultimately show ?thesis by simp
qed

section \<open>Passages and chains\<close>

lemma passage_iff:
  "passage m (x, y) b =
     ((\<not> fst (get_walls m x y) \<and> b = (x, y + 1)) \<or>
      (\<not> fst (snd (get_walls m x y)) \<and> b = (x + 1, y)) \<or>
      (\<not> fst (snd (snd (get_walls m x y))) \<and> b = (x, y - 1)) \<or>
      (\<not> snd (snd (snd (get_walls m x y))) \<and> b = (x - 1, y)))"
  by (cases "get_walls m x y") (simp add: passage_def)

lemma set_ext_get_neighbours:
  "set (ext_get_neighbours m x y) = {b. passage m (x, y) b}"
  by (cases "get_walls m x y") (auto simp: ext_get_neighbours_def passage_def)

lemma basic_eq_ext:
  assumes "in_range m (x, y)"
  shows "basic_get_neighbours m x y = ext_get_neighbours m x y"
proof -
  obtain north east south west where gw: "get_walls m x y = (north, east, south, west)"
    by (cases "get_walls m x y") auto
  note os = open_side_in_range [OF assms gw]
  show ?thesis
    using os by (simp add: basic_get_neighbours_def ext_get_neighbours_def gw)
qed

lemma set_basic_get_neighbours:
  "in_range m (x, y) \<Longrightarrow> set (basic_get_neighbours m x y) = {b. passage m (x, y) b}"
  by (simp only: basic_eq_ext set_ext_get_neighbours)

lemma passage_in_range:
  assumes "in_range m a" and "passage m a b"
  shows "in_range m b"
proof -
  obtain x y where a: "a = (x, y)" by (cases a)
  obtain north east south west where gw: "get_walls m x y = (north, east, south, west)"
    by (cases "get_walls m x y") auto
  note os = open_side_in_range [OF assms(1) [unfolded a] gw]
  from assms show ?thesis
    using os unfolding a by (auto simp: passage_def gw)
qed

lemma passage_neq: "passage m a b \<Longrightarrow> a \<noteq> b"
  by (cases a; cases "get_walls m (fst a) (snd a)") (auto simp: passage_def)

lemma passage_h: "passage m a b \<Longrightarrow> h a t \<le> h b t + 1"
  by (cases a; cases "get_walls m (fst a) (snd a)") (auto simp: passage_def h_def)

lemma chain_snoc:
  "chain m (p @ [b]) = (chain m p \<and> (p = [] \<or> passage m (last p) b))"
  by (induction m p rule: chain.induct) auto

lemma chain_append_cons:
  "chain m (p @ b # r) = (chain m (p @ [b]) \<and> chain m (b # r))"
  by (induction m p rule: chain.induct) simp_all

lemma chain_h: "chain m (a # r) \<Longrightarrow> h a (last (a # r)) \<le> int (length r)"
proof (induction r arbitrary: a)
  case Nil
  show ?case by (simp add: h_def)
next
  case (Cons b r)
  then have "passage m a b" and "chain m (b # r)" by simp_all
  from passage_h [OF this(1), of "last (b # r)"] Cons.IH [OF this(2)]
  show ?case by simp
qed

lemma finite_grid: "finite {c. in_range m c}"
proof -
  have "{c. in_range m c} \<subseteq> {0..<width m} \<times> {0..<height m}"
    by auto
  then show ?thesis
    by (rule finite_subset) simp
qed

section \<open>Walking the parent map back\<close>

lemma walk_back_tree:
  assumes tree: "\<And>n. n \<in> V \<Longrightarrow> n \<noteq> start \<Longrightarrow>
      \<exists>p. par n = Some p \<and> p \<in> V \<and> passage m p n \<and> rank p < (rank n :: nat)"
    and "n \<in> V"
  shows "\<exists>ps. walk_back par start n acc = Some (Inr (acc @ ps)) \<and>
           length ps \<le> rank n \<and> chain m (start # rev ps) \<and> last (start # rev ps) = n"
  using assms(2)
proof (induction "rank n" arbitrary: n acc rule: less_induct)
  case less
  show ?case
  proof (cases "n = start")
    case True
    then have "walk_back par start n acc = Some (Inr (acc @ []))"
      by (subst walk_back.simps) simp
    with True show ?thesis by fastforce
  next
    case False
    from tree [OF less.prems False] obtain p where
      p: "par n = Some p" "p \<in> V" "passage m p n" "rank p < rank n" by blast
    from less.hyps [OF p(4) p(2), of "acc @ [n]"] obtain ps where
      ps: "walk_back par start p (acc @ [n]) = Some (Inr ((acc @ [n]) @ ps))"
        "length ps \<le> rank p" "chain m (start # rev ps)" "last (start # rev ps) = p"
      by blast
    have "walk_back par start n acc = walk_back par start p (acc @ [n])"
      using False p(1) by (subst walk_back.simps) simp
    with ps(1) have 1: "walk_back par start n acc = Some (Inr (acc @ (n # ps)))"
      by simp
    have 2: "length (n # ps) \<le> rank n"
      using ps(2) p(4) by simp
    have "chain m ((start # rev ps) @ [n])"
      unfolding chain_snoc using ps(3,4) p(3) by simp
    then have 3: "chain m (start # rev (n # ps))" by simp
    have 4: "last (start # rev (n # ps)) = n" by simp
    from 1 2 3 4 show ?thesis by blast
  qed
qed

lemma reconstruct_tree:
  assumes tree: "\<And>n. n \<in> V \<Longrightarrow> n \<noteq> start \<Longrightarrow>
      \<exists>p. par n = Some p \<and> p \<in> V \<and> passage m p n \<and> rank p < (rank n :: nat)"
    and "target \<in> V"
  shows "\<exists>p. reconstruct par start target = Some (Inr p) \<and> path_between m start target p \<and>
           length p \<le> rank target + 1"
proof -
  from walk_back_tree [of V start par m rank target "[]", OF tree assms(2)] obtain ps where
    ps: "walk_back par start target [] = Some (Inr ps)" "length ps \<le> rank target"
      "chain m (start # rev ps)" "last (start # rev ps) = target"
    by auto
  have "reconstruct par start target = Some (Inr (start # rev ps))"
    by (simp add: reconstruct_def ps(1))
  moreover have "path_between m start target (start # rev ps)"
    using ps(3,4) by (simp add: path_between_def)
  ultimately show ?thesis using ps(2) by auto
qed

section \<open>Breadth-first search\<close>

lemma bfs_inv_init:
  assumes "in_range m start"
  shows "bfs_inv m start target (\<lambda>_. 0) {} 0
           \<lparr>queue = [start], visited = {start}, parent = Map.empty\<rparr>"
  using assms by (simp add: bfs_inv_def bfs_tree_def bfs_front_def bfs_done_def)

lemma bfs_inv_pop:
  assumes inv: "bfs_inv m start target g {} lo s"
    and q: "queue s = cur # rest" and nt: "cur \<noteq> target"
  shows "bfs_inv m start target g {cur} (g cur) (s\<lparr>queue := rest\<rparr>)"
proof -
  from inv have tree: "bfs_tree m start g s" and front: "bfs_front g lo s"
    and dn: "bfs_done m target g {} lo s"
    by (simp_all add: bfs_inv_def)
  from front q have lo: "lo \<le> g cur" "g cur \<le> lo + 1"
    and rest: "\<forall>c \<in> set rest. g cur \<le> g c \<and> g c \<le> lo + 1"
    and srt: "sorted (map g rest)" and sub: "set rest \<subseteq> visited s"
    by (auto simp: bfs_front_def)
  have 1: "bfs_tree m start g (s\<lparr>queue := rest\<rparr>)"
    using tree by (simp add: bfs_tree_def)
  have 2: "bfs_front g (g cur) (s\<lparr>queue := rest\<rparr>)"
    using rest srt sub lo by (auto simp: bfs_front_def)
  have 3: "bfs_done m target g {cur} (g cur) (s\<lparr>queue := rest\<rparr>)"
    unfolding bfs_done_def
  proof (intro ballI impI)
    fix n assume n: "n \<in> visited (s\<lparr>queue := rest\<rparr>)" "n \<notin> set (queue (s\<lparr>queue := rest\<rparr>))"
    show "n \<noteq> target \<and> g n \<le> g cur \<and>
          (n \<notin> {cur} \<longrightarrow> (\<forall>b. passage m n b \<longrightarrow>
             b \<in> visited (s\<lparr>queue := rest\<rparr>) \<and> g b \<le> g n + 1))"
    proof (cases "n = cur")
      case True
      with nt show ?thesis by simp
    next
      case False
      with n q have "n \<in> visited s" "n \<notin> set (queue s)" by simp_all
      with dn have "n \<noteq> target" "g n \<le> lo"
        "\<forall>b. passage m n b \<longrightarrow> b \<in> visited s \<and> g b \<le> g n + 1"
        by (auto simp: bfs_done_def)
      with lo show ?thesis by simp
    qed
  qed
  from 1 2 3 show ?thesis by (simp add: bfs_inv_def)
qed

lemma bfs_inv_visit:
  assumes inv: "bfs_inv m start target g {cur} lo s"
    and cur: "g cur = lo" "cur \<in> visited s" and pass: "passage m cur nb"
  shows "\<exists>g'. bfs_inv m start target g' {cur} lo (bfs_visit cur s nb) \<and>
           (\<forall>v \<in> visited s. g' v = g v) \<and> visited s \<subseteq> visited (bfs_visit cur s nb) \<and>
           nb \<in> visited (bfs_visit cur s nb) \<and> g' nb \<le> lo + 1"
proof (cases "nb \<in> visited s")
  case True
  from inv have front: "bfs_front g lo s" and dn: "bfs_done m target g {cur} lo s"
    by (simp_all add: bfs_inv_def)
  have "g nb \<le> lo + 1"
  proof (cases "nb \<in> set (queue s)")
    case True
    with front show ?thesis by (simp add: bfs_front_def)
  next
    case False
    with dn True have "g nb \<le> lo" by (simp add: bfs_done_def)
    then show ?thesis by simp
  qed
  with True inv show ?thesis
    by (intro exI [of _ g]) (simp add: bfs_visit_def)
next
  case False
  let ?g = "g(nb := Suc lo)"
  let ?s = "s\<lparr>queue := queue s @ [nb], visited := insert nb (visited s),
               parent := (parent s)(nb \<mapsto> cur)\<rparr>"
  from inv have tree: "bfs_tree m start g s" and front: "bfs_front g lo s"
    and dn: "bfs_done m target g {cur} lo s"
    by (simp_all add: bfs_inv_def)
  have same: "\<forall>v \<in> visited s. ?g v = g v"
    using False by auto
  from tree have st: "start \<in> visited s" "g start = 0" and rng: "\<forall>c \<in> visited s. in_range m c"
    and par: "\<forall>n \<in> visited s. n \<noteq> start \<longrightarrow>
        (\<exists>p. parent s n = Some p \<and> p \<in> visited s \<and> passage m p n \<and> g n = g p + 1)"
    by (simp_all add: bfs_tree_def)
  have nbr: "in_range m nb"
    using rng cur(2) pass passage_in_range by blast
  have nbs: "nb \<noteq> start" "nb \<noteq> cur"
    using False st(1) cur(2) by auto
  have 1: "bfs_tree m start ?g ?s"
    unfolding bfs_tree_def
  proof (intro conjI ballI impI)
    show "start \<in> visited ?s" using st by simp
    show "?g start = 0" using st nbs by simp
    show "in_range m c" if "c \<in> visited ?s" for c
      using that rng nbr by auto
    show "\<exists>p. parent ?s n = Some p \<and> p \<in> visited ?s \<and> passage m p n \<and> ?g n = ?g p + 1"
      if n: "n \<in> visited ?s" "n \<noteq> start" for n
    proof (cases "n = nb")
      case True
      then show ?thesis using cur pass nbs by simp
    next
      case neq: False
      with n have nv: "n \<in> visited s" by simp
      with par n(2) obtain p where
        p: "parent s n = Some p" "p \<in> visited s" "passage m p n" "g n = g p + 1" by blast
      have "p \<noteq> nb" using p(2) False by auto
      with p neq show ?thesis by simp
    qed
  qed
  from front have fr: "set (queue s) \<subseteq> visited s" "sorted (map g (queue s))"
    "\<forall>c \<in> set (queue s). lo \<le> g c \<and> g c \<le> lo + 1"
    by (simp_all add: bfs_front_def)
  have mq: "map ?g (queue s) = map g (queue s)"
    using fr(1) False by (intro map_cong) auto
  have 2: "bfs_front ?g lo ?s"
    unfolding bfs_front_def
  proof (intro conjI)
    show "set (queue ?s) \<subseteq> visited ?s" using fr(1) by auto
    show "sorted (map ?g (queue ?s))"
      using fr(2,3) by (simp add: mq sorted_append del: fun_upd_apply) auto
    show "\<forall>c \<in> set (queue ?s). lo \<le> ?g c \<and> ?g c \<le> lo + 1"
      using fr(3) by auto
  qed
  have 3: "bfs_done m target ?g {cur} lo ?s"
    unfolding bfs_done_def
  proof (intro ballI impI)
    fix n assume n: "n \<in> visited ?s" "n \<notin> set (queue ?s)"
    then have nn: "n \<noteq> nb" "n \<in> visited s" "n \<notin> set (queue s)" by auto
    with dn have d: "n \<noteq> target" "g n \<le> lo"
      "n \<notin> {cur} \<longrightarrow> (\<forall>b. passage m n b \<longrightarrow> b \<in> visited s \<and> g b \<le> g n + 1)"
      by (auto simp: bfs_done_def)
    have "\<forall>b. passage m n b \<longrightarrow> b \<in> visited ?s \<and> ?g b \<le> ?g n + 1" if "n \<notin> {cur}"
    proof (intro allI impI)
      fix b assume "passage m n b"
      with d(3) that have "b \<in> visited s" "g b \<le> g n + 1" by blast+
      with False nn(1) show "b \<in> visited ?s \<and> ?g b \<le> ?g n + 1" by auto
    qed
    with d(1,2) nn(1) show "n \<noteq> target \<and> ?g n \<le> lo \<and>
          (n \<notin> {cur} \<longrightarrow> (\<forall>b. passage m n b \<longrightarrow> b \<in> visited ?s \<and> ?g b \<le> ?g n + 1))"
      by simp
  qed
  have eq: "bfs_visit cur s nb = ?s"
    using False by (simp add: bfs_visit_def)
  have "bfs_inv m start target ?g {cur} lo ?s"
    using 1 2 3 by (simp add: bfs_inv_def)
  with same show ?thesis
    unfolding eq by (intro exI [of _ ?g]) auto
qed

lemma bfs_inv_fold:
  assumes "bfs_inv m start target g {cur} lo s" and "g cur = lo" and "cur \<in> visited s"
    and "\<forall>b \<in> set ns. passage m cur b"
  shows "\<exists>g'. bfs_inv m start target g' {cur} lo (foldl (bfs_visit cur) s ns) \<and>
           (\<forall>v \<in> visited s. g' v = g v) \<and>
           visited s \<subseteq> visited (foldl (bfs_visit cur) s ns) \<and>
           (\<forall>b \<in> set ns. b \<in> visited (foldl (bfs_visit cur) s ns) \<and> g' b \<le> lo + 1)"
  using assms
proof (induction ns arbitrary: s g)
  case Nil
  then show ?case by (intro exI [of _ g]) simp
next
  case (Cons a ns)
  let ?s1 = "bfs_visit cur s a"
  from Cons.prems(4) have pa: "passage m cur a" and rest: "\<forall>b \<in> set ns. passage m cur b"
    by simp_all
  from bfs_inv_visit [OF Cons.prems(1,2,3) pa] obtain g1 where
    g1: "bfs_inv m start target g1 {cur} lo ?s1" "\<forall>v \<in> visited s. g1 v = g v"
      "visited s \<subseteq> visited ?s1" "a \<in> visited ?s1" "g1 a \<le> lo + 1"
    by blast
  have c1: "g1 cur = lo" "cur \<in> visited ?s1"
    using g1(2,3) Cons.prems(2,3) by auto
  from Cons.IH [OF g1(1) c1 rest] obtain g' where
    g': "bfs_inv m start target g' {cur} lo (foldl (bfs_visit cur) ?s1 ns)"
      "\<forall>v \<in> visited ?s1. g' v = g1 v"
      "visited ?s1 \<subseteq> visited (foldl (bfs_visit cur) ?s1 ns)"
      "\<forall>b \<in> set ns. b \<in> visited (foldl (bfs_visit cur) ?s1 ns) \<and> g' b \<le> lo + 1"
    by blast
  have 1: "\<forall>v \<in> visited s. g' v = g v"
    using g1(2,3) g'(2) by auto
  have 2: "visited s \<subseteq> visited (foldl (bfs_visit cur) ?s1 ns)"
    using g1(3) g'(3) by auto
  have 3: "a \<in> visited (foldl (bfs_visit cur) ?s1 ns) \<and> g' a \<le> lo + 1"
    using g1(4,5) g'(2,3) by auto
  show ?case
    unfolding foldl_Cons using g'(1,4) 1 2 3 by (intro exI [of _ g']) simp
qed

lemma bfs_inv_close:
  assumes "bfs_inv m start target g {cur} lo s"
    and "\<forall>b. passage m cur b \<longrightarrow> b \<in> visited s \<and> g b \<le> g cur + 1"
  shows "bfs_inv m start target g {} lo s"
  using assms unfolding bfs_inv_def bfs_done_def by blast

lemma visited_foldl: "visited (foldl (bfs_visit cur) s ns) = visited s \<union> set ns"
  by (induction ns arbitrary: s) (auto simp: bfs_visit_def)

lemma foldl_visited_same: "set ns \<subseteq> visited s \<Longrightarrow> foldl (bfs_visit cur) s ns = s"
  by (induction ns arbitrary: s) (auto simp: bfs_visit_def)

lemma bfs_frontier:
  assumes inv: "bfs_inv m start target g {} lo s"
    and "chain m q" and "q \<noteq> []" and "hd q = start"
  shows "(last q \<in> visited s \<and> g (last q) + 1 \<le> length q) \<or>
         (\<exists>c \<in> set (queue s). g c + 1 \<le> length q)"
  using assms(2-)
proof (induction q rule: rev_induct)
  case Nil
  then show ?case by simp
next
  case (snoc b q)
  from inv have tree: "bfs_tree m start g s" and dn: "bfs_done m target g {} lo s"
    by (simp_all add: bfs_inv_def)
  show ?case
  proof (cases "q = []")
    case True
    with snoc.prems have "b = start" by simp
    with tree True show ?thesis by (simp add: bfs_tree_def)
  next
    case False
    with snoc.prems have ch: "chain m q" and pass: "passage m (last q) b" and "hd q = start"
      by (simp_all add: chain_snoc)
    from snoc.IH [OF this(1) False this(3)] consider
      (seen) "last q \<in> visited s" "g (last q) + 1 \<le> length q" |
      (front) c where "c \<in> set (queue s)" "g c + 1 \<le> length q"
      by blast
    then show ?thesis
    proof cases
      case seen
      show ?thesis
      proof (cases "last q \<in> set (queue s)")
        case True
        with seen(2) show ?thesis
          by (intro disjI2 bexI [of _ "last q"]) simp_all
      next
        case False
        with dn seen(1) pass have "b \<in> visited s" "g b \<le> g (last q) + 1"
          unfolding bfs_done_def by blast+
        with seen(2) show ?thesis by simp
      qed
    next
      case front
      then show ?thesis
        by (intro disjI2 bexI [of _ c]) simp_all
    qed
  qed
qed

lemma bfs_loop_correct:
  assumes "bfs_inv m start target g {} lo s"
  shows "\<exists>fnd s'. bfs_loop m target s = Some (fnd, s') \<and>
           (fnd \<longrightarrow> (\<exists>g'. bfs_tree m start g' s' \<and> target \<in> visited s' \<and>
                      (\<forall>q. path_between m start target q \<longrightarrow> g' target + 1 \<le> length q))) \<and>
           (\<not> fnd \<longrightarrow> (\<forall>q. \<not> path_between m start target q))"
proof -
  let ?grid = "{c. in_range m c}"
  let ?R = "measures [\<lambda>s. card (?grid - visited s), \<lambda>s. length (queue s)]"
  have wf: "wf ?R" by simp
  from wf assms show ?thesis
  proof (induction s arbitrary: g lo rule: wf_induct_rule)
    case (less s)
    note inv = less.prems
    from inv have tree: "bfs_tree m start g s" and front: "bfs_front g lo s"
      and dn: "bfs_done m target g {} lo s"
      by (simp_all add: bfs_inv_def)
    show ?case
    proof (cases "queue s")
      case Nil
      have "\<not> path_between m start target q" for q
      proof
        assume "path_between m start target q"
        then have "chain m q" "q \<noteq> []" "hd q = start" "last q = target"
          by (simp_all add: path_between_def)
        from bfs_frontier [OF inv this(1,2,3)] this(4) Nil have "target \<in> visited s"
          by simp
        with dn Nil show False by (auto simp: bfs_done_def)
      qed
      moreover have "bfs_loop m target s = Some (False, s)"
        using Nil by (subst bfs_loop.simps) simp
      ultimately show ?thesis by blast
    next
      case (Cons cur rest)
      show ?thesis
      proof (cases "cur = target")
        case True
        let ?s1 = "s\<lparr>queue := rest\<rparr>"
        have run: "bfs_loop m target s = Some (True, ?s1)"
          using Cons True by (subst bfs_loop.simps) (simp add: Let_def)
        have t1: "bfs_tree m start g ?s1"
          using tree by (simp add: bfs_tree_def)
        have tv: "target \<in> visited ?s1"
          using front Cons True by (simp add: bfs_front_def)
        have opt: "g target + 1 \<le> length q" if "path_between m start target q" for q
        proof -
          from that have q: "chain m q" "q \<noteq> []" "hd q = start" "last q = target"
            by (simp_all add: path_between_def)
          from bfs_frontier [OF inv q(1,2,3)] consider
            "g target + 1 \<le> length q" | c where "c \<in> set (queue s)" "g c + 1 \<le> length q"
            using q(4) by auto
          then show ?thesis
          proof cases
            case 1
            then show ?thesis .
          next
            case 2
            from front Cons True 2(1) have "g target \<le> g c"
              by (auto simp: bfs_front_def)
            with 2(2) show ?thesis by simp
          qed
        qed
        from run t1 tv opt show ?thesis by blast
      next
        case False
        let ?s1 = "s\<lparr>queue := rest\<rparr>"
        let ?ns = "basic_get_neighbours m (fst cur) (snd cur)"
        let ?s2 = "foldl (bfs_visit cur) ?s1 ?ns"
        have run: "bfs_loop m target s = bfs_loop m target ?s2"
          using Cons False by (subst bfs_loop.simps) (simp add: Let_def)
        have cv: "cur \<in> visited s"
          using front Cons by (simp add: bfs_front_def)
        with tree have "in_range m cur" by (simp add: bfs_tree_def)
        then have ns: "set ?ns = {b. passage m cur b}"
          using set_basic_get_neighbours [of m "fst cur" "snd cur"] by simp
        have inv1: "bfs_inv m start target g {cur} (g cur) ?s1"
          by (rule bfs_inv_pop [OF inv Cons False])
        from bfs_inv_fold [OF inv1 refl, of ?ns] cv ns obtain g' where
          g': "bfs_inv m start target g' {cur} (g cur) ?s2" "\<forall>v \<in> visited ?s1. g' v = g v"
            "\<forall>b \<in> set ?ns. b \<in> visited ?s2 \<and> g' b \<le> g cur + 1"
          by auto
        have "g' cur = g cur" using g'(2) cv by simp
        with g'(3) ns have "\<forall>b. passage m cur b \<longrightarrow> b \<in> visited ?s2 \<and> g' b \<le> g' cur + 1"
          by auto
        from bfs_inv_close [OF g'(1) this]
        have inv2: "bfs_inv m start target g' {} (g cur) ?s2" .
        have dec: "(?s2, s) \<in> ?R"
        proof (cases "set ?ns \<subseteq> visited s")
          case True
          then have "?s2 = ?s1" by (simp add: foldl_visited_same)
          with Cons show ?thesis by simp
        next
          case False
          have v2: "visited ?s2 = visited s \<union> set ?ns"
            by (simp add: visited_foldl)
          from inv2 have "visited ?s2 \<subseteq> ?grid"
            by (auto simp: bfs_inv_def bfs_tree_def)
          with v2 False have "?grid - visited ?s2 \<subset> ?grid - visited s"
            by auto
          then have "card (?grid - visited ?s2) < card (?grid - visited s)"
            by (intro psubset_card_mono) (simp_all add: finite_grid)
          then show ?thesis by simp
        qed
        from less.IH [OF dec inv2] run show ?thesis by simp
      qed
    qed
  qed
qed

lemma basic_shortest_path_correct:
  assumes "in_range m (default_start starting)"
  shows "\<exists>p. basic_shortest_path m starting goal = Some (Inr p) \<and>
           (if \<exists>q. path_between m (default_start starting) (default_target m goal) q
            then path_between m (default_start starting) (default_target m goal) p \<and>
                 (\<forall>q. path_between m (default_start starting) (default_target m goal) q \<longrightarrow>
                      length p \<le> length q)
            else p = [])"
proof -
  let ?start = "default_start starting" and ?target = "default_target m goal"
  let ?s0 = "\<lparr>queue = [?start], visited = {?start}, parent = Map.empty\<rparr>"
  from bfs_loop_correct [OF bfs_inv_init [OF assms, of ?target]] obtain fnd s' where
    run: "bfs_loop m ?target ?s0 = Some (fnd, s')"
    and yes: "fnd \<longrightarrow> (\<exists>g'. bfs_tree m ?start g' s' \<and> ?target \<in> visited s' \<and>
                      (\<forall>q. path_between m ?start ?target q \<longrightarrow> g' ?target + 1 \<le> length q))"
    and no: "\<not> fnd \<longrightarrow> (\<forall>q. \<not> path_between m ?start ?target q)"
    by blast
  show ?thesis
  proof (cases fnd)
    case False
    with no have none: "\<not> (\<exists>q. path_between m ?start ?target q)" by blast
    have "basic_shortest_path m starting goal = Some (Inr [])"
      using run False by (simp add: basic_shortest_path_def Let_def)
    with none show ?thesis by simp
  next
    case True
    with yes obtain g' where tree: "bfs_tree m ?start g' s'" and tv: "?target \<in> visited s'"
      and opt: "\<forall>q. path_between m ?start ?target q \<longrightarrow> g' ?target + 1 \<le> length q"
      by blast
    have step: "\<exists>p. parent s' n = Some p \<and> p \<in> visited s' \<and> passage m p n \<and> g' p < g' n"
      if "n \<in> visited s'" "n \<noteq> ?start" for n
    proof -
      from tree that obtain p where
        "parent s' n = Some p" "p \<in> visited s'" "passage m p n" "g' n = g' p + 1"
        unfolding bfs_tree_def by blast
      then show ?thesis by auto
    qed
    from reconstruct_tree [of "visited s'" ?start "parent s'" m g' ?target, OF step tv]
    obtain p where p: "reconstruct (parent s') ?start ?target = Some (Inr p)"
      "path_between m ?start ?target p" "length p \<le> g' ?target + 1"
      by blast
    have res: "basic_shortest_path m starting goal = Some (Inr p)"
      using run True p(1) by (simp add: basic_shortest_path_def Let_def)
    have "length p \<le> length q" if "path_between m ?start ?target q" for q
      using opt that p(3) by (meson le_trans)
    with res p(2) show ?thesis by auto
  qed
qed

section \<open>A* search\<close>

lemma h_nonneg: "0 \<le> h a b"
  by (simp add: h_def)

lemma astar_inv_init:
  assumes "in_range m start"
  shows "astar_inv m start target {}
           \<lparr>open_set = [(0, start)], g_cost = [start \<mapsto> 0], astar_parent = Map.empty\<rparr>"
  using assms h_nonneg [of start target]
  by (simp add: astar_inv_def astar_tree_def astar_heap_def astar_open_def)

lemma astar_inv_pop:
  assumes inv: "astar_inv m start target {} s" and q: "open_set s = e # rest"
  shows "astar_inv m start target {snd e} (s\<lparr>open_set := rest\<rparr>)"
proof -
  from inv have tree: "astar_tree m start s" and hp: "astar_heap start target s"
    and op: "astar_open m target {} s"
    by (simp_all add: astar_inv_def)
  have 1: "astar_tree m start (s\<lparr>open_set := rest\<rparr>)"
    using tree by (simp add: astar_tree_def)
  have 2: "astar_heap start target (s\<lparr>open_set := rest\<rparr>)"
    using hp q by (simp add: astar_heap_def)
  have 3: "astar_open m target {snd e} (s\<lparr>open_set := rest\<rparr>)"
    unfolding astar_open_def
  proof (intro ballI impI)
    fix n assume n: "n \<in> dom (g_cost (s\<lparr>open_set := rest\<rparr>))" "n \<notin> {snd e}"
    then have "n \<in> dom (g_cost s)" by simp
    with op consider
      (closed) "\<forall>b. passage m n b \<longrightarrow> b \<in> dom (g_cost s) \<and> gval s b \<le> gval s n + 1" |
      (entry) f where "(f, n) \<in> set (open_set s)" "f \<le> gval s n + h n target"
      unfolding astar_open_def by blast
    then show "(\<forall>b. passage m n b \<longrightarrow>
               b \<in> dom (g_cost (s\<lparr>open_set := rest\<rparr>)) \<and>
               gval (s\<lparr>open_set := rest\<rparr>) b \<le> gval (s\<lparr>open_set := rest\<rparr>) n + 1) \<or>
          (\<exists>f. (f, n) \<in> set (open_set (s\<lparr>open_set := rest\<rparr>)) \<and>
               f \<le> gval (s\<lparr>open_set := rest\<rparr>) n + h n target)"
    proof cases
      case closed
      then show ?thesis by simp
    next
      case entry
      from entry(1) q n(2) have "(f, n) \<in> set rest" by auto
      with entry(2) show ?thesis by auto
    qed
  qed
  from 1 2 3 show ?thesis by (simp add: astar_inv_def)
qed

lemma astar_relax_skip:
  assumes "g_cost s cur = Some gc" and "g_cost s nb = Some gn" and "\<not> gc + 1 < gn"
  shows "astar_relax target cur (Inr s) nb = Inr s"
  using assms by (simp add: astar_relax_def Let_def)

lemma astar_relax_update:
  assumes "g_cost s cur = Some gc" and "nb \<in> dom (g_cost s) \<longrightarrow> gc + 1 < gval s nb"
  shows "astar_relax target cur (Inr s) nb =
           Inr (s\<lparr>open_set := heappush (open_set s) (gc + 1 + h nb target, nb),
                  g_cost := (g_cost s)(nb \<mapsto> gc + 1),
                  astar_parent := (astar_parent s)(nb \<mapsto> cur)\<rparr>)"
  using assms by (cases "g_cost s nb") (auto simp: astar_relax_def Let_def)

lemma astar_inv_update:
  assumes inv: "astar_inv m start target {cur} s"
    and cur: "g_cost s cur = Some gc"
    and pass: "passage m cur nb"
    and upd: "nb \<in> dom (g_cost s) \<longrightarrow> gc + 1 < gval s nb"
  defines "s' \<equiv> s\<lparr>open_set := heappush (open_set s) (gc + 1 + h nb target, nb),
                    g_cost := (g_cost s)(nb \<mapsto> gc + 1),
                    astar_parent := (astar_parent s)(nb \<mapsto> cur)\<rparr>"
  shows "astar_inv m start target {cur} s'"
    and "\<forall>v \<in> dom (g_cost s). gval s' v \<le> gval s v"
    and "astar_pot m s' < astar_pot m s"
proof -
  let ?D = "dom (g_cost s)" and ?grid = "{c. in_range m c}"
  from inv have tree: "astar_tree m start s" and hp: "astar_heap start target s"
    and op: "astar_open m target {cur} s"
    by (simp_all add: astar_inv_def)
  from tree have st: "g_cost s start = Some 0"
    and bnd: "\<And>c. c \<in> ?D \<Longrightarrow> in_range m c \<and> 0 \<le> gval s c \<and> gval s c < int (card ?D)"
    and par: "\<And>n. n \<in> ?D \<Longrightarrow> n \<noteq> start \<Longrightarrow>
                \<exists>p. astar_parent s n = Some p \<and> p \<in> ?D \<and> passage m p n \<and>
                    gval s p + 1 \<le> gval s n"
    unfolding astar_tree_def by blast+
  from cur have curD: "cur \<in> ?D" and gvc: "gval s cur = gc" by auto
  from bnd [OF curD] gvc have gc0: "0 \<le> gc" and gcb: "gc < int (card ?D)"
    and curR: "in_range m cur"
    by simp_all
  have ne_cur: "nb \<noteq> cur" using passage_neq [OF pass] by simp
  have ne_start: "nb \<noteq> start"
  proof
    assume "nb = start"
    with st upd have "gc + 1 < 0" by auto
    with gc0 show False by simp
  qed
  have nbR: "in_range m nb" by (rule passage_in_range [OF curR pass])
  have sub: "?D \<subseteq> ?grid" using bnd by auto
  then have fin: "finite ?D" by (rule finite_subset) (rule finite_grid)
  have gs': "g_cost s' = (g_cost s)(nb \<mapsto> gc + 1)"
    and ps': "astar_parent s' = (astar_parent s)(nb \<mapsto> cur)"
    and os': "open_set s' = insort (gc + 1 + h nb target, nb) (open_set s)"
    by (simp_all add: s'_def heappush_def)
  have dom': "dom (g_cost s') = insert nb ?D" by (simp add: gs')
  have gv_nb: "gval s' nb = gc + 1" by (simp add: gs')
  have gv_other: "gval s' c = gval s c" if "c \<noteq> nb" for c
    using that by (simp add: gs')
  have mono: "gval s' v \<le> gval s v" if "v \<in> ?D" for v
  proof (cases "v = nb")
    case True
    with that upd gv_nb show ?thesis by simp
  next
    case False
    then show ?thesis by (simp add: gv_other)
  qed
  have card_le: "card ?D \<le> card (dom (g_cost s'))"
    unfolding dom' using fin by (simp add: card_insert_le)
  have bound_nb: "gc + 1 < int (card (dom (g_cost s')))"
  proof (cases "nb \<in> ?D")
    case True
    with upd have "gc + 1 < gval s nb" by simp
    also have "\<dots> < int (card ?D)" using bnd [OF True] by simp
    finally show ?thesis using card_le by simp
  next
    case False
    then have "card (dom (g_cost s')) = Suc (card ?D)"
      unfolding dom' using fin by simp
    with gcb show ?thesis by simp
  qed
  have t1: "g_cost s' start = Some 0"
    using st ne_start by (simp add: gs')
  have t2: "in_range m c \<and> 0 \<le> gval s' c \<and> gval s' c < int (card (dom (g_cost s')))"
    if "c \<in> dom (g_cost s')" for c
  proof (cases "c = nb")
    case True
    with nbR gc0 bound_nb gv_nb show ?thesis by simp
  next
    case False
    with that dom' have "c \<in> ?D" by simp
    from bnd [OF this] card_le gv_other [OF False] show ?thesis by simp
  qed
  have t3: "\<exists>p. astar_parent s' n = Some p \<and> p \<in> dom (g_cost s') \<and> passage m p n \<and>
               gval s' p + 1 \<le> gval s' n"
    if "n \<in> dom (g_cost s')" "n \<noteq> start" for n
  proof (cases "n = nb")
    case True
    have "astar_parent s' nb = Some cur" by (simp add: ps')
    moreover have "cur \<in> dom (g_cost s')" using curD dom' by simp
    moreover have "gval s' cur + 1 \<le> gval s' nb"
      using gv_nb gv_other [of cur] ne_cur gvc by simp
    ultimately show ?thesis using pass True by blast
  next
    case False
    with that dom' have nD: "n \<in> ?D" by simp
    from par [OF nD that(2)] obtain p where
      p: "astar_parent s n = Some p" "p \<in> ?D" "passage m p n" "gval s p + 1 \<le> gval s n"
      by blast
    have "astar_parent s' n = Some p" using p(1) False by (simp add: ps')
    moreover have "p \<in> dom (g_cost s')" using p(2) dom' by simp
    moreover have "gval s' p + 1 \<le> gval s' n"
      using mono [OF p(2)] p(4) gv_other [OF False] by simp
    ultimately show ?thesis using p(3) by blast
  qed
  have tree': "astar_tree m start s'"
    unfolding astar_tree_def using t1 t2 t3 by blast
  have so: "set (open_set s') = insert (gc + 1 + h nb target, nb) (set (open_set s))"
    by (simp add: os' set_insort_key)
  have h1: "sorted (open_set s')"
    using hp by (simp add: os' astar_heap_def sorted_insort)
  have h2: "snd e \<in> dom (g_cost s') \<and>
            (snd e = start \<or> gval s' (snd e) + h (snd e) target \<le> fst e)"
    if "e \<in> set (open_set s')" for e
  proof (cases "e = (gc + 1 + h nb target, nb)")
    case True
    then show ?thesis using dom' gv_nb by simp
  next
    case False
    with that so have "e \<in> set (open_set s)" by simp
    with hp have e: "snd e \<in> ?D" "snd e = start \<or> gval s (snd e) + h (snd e) target \<le> fst e"
      unfolding astar_heap_def by blast+
    from mono [OF e(1)] e(2)
    have "snd e = start \<or> gval s' (snd e) + h (snd e) target \<le> fst e" by auto
    with e(1) dom' show ?thesis by simp
  qed
  have heap': "astar_heap start target s'"
    unfolding astar_heap_def using h1 h2 by blast
  have o1: "(\<forall>b. passage m n b \<longrightarrow> b \<in> dom (g_cost s') \<and> gval s' b \<le> gval s' n + 1) \<or>
            (\<exists>f. (f, n) \<in> set (open_set s') \<and> f \<le> gval s' n + h n target)"
    if "n \<in> dom (g_cost s')" "n \<notin> {cur}" for n
  proof (cases "n = nb")
    case True
    have "(gc + 1 + h nb target, nb) \<in> set (open_set s')" by (simp add: so)
    moreover have "gc + 1 + h nb target \<le> gval s' nb + h nb target" by (simp add: gv_nb)
    ultimately show ?thesis unfolding True by blast
  next
    case False
    with that dom' have nD: "n \<in> ?D" by simp
    from op nD that(2) consider
      (closed) "\<forall>b. passage m n b \<longrightarrow> b \<in> ?D \<and> gval s b \<le> gval s n + 1" |
      (entry) f where "(f, n) \<in> set (open_set s)" "f \<le> gval s n + h n target"
      unfolding astar_open_def by blast
    then show ?thesis
    proof cases
      case closed
      have "b \<in> dom (g_cost s') \<and> gval s' b \<le> gval s' n + 1" if "passage m n b" for b
      proof -
        from closed that have b: "b \<in> ?D" "gval s b \<le> gval s n + 1" by blast+
        from mono [OF b(1)] b(2) gv_other [OF False] have "gval s' b \<le> gval s' n + 1"
          by simp
        with b(1) dom' show ?thesis by simp
      qed
      then show ?thesis by blast
    next
      case entry
      from entry(1) so have "(f, n) \<in> set (open_set s')" by simp
      moreover from entry(2) gv_other [OF False] have "f \<le> gval s' n + h n target" by simp
      ultimately show ?thesis by blast
    qed
  qed
  have open': "astar_open m target {cur} s'"
    unfolding astar_open_def using o1 by blast
  from tree' heap' open' show "astar_inv m start target {cur} s'"
    by (simp add: astar_inv_def)
  from mono show "\<forall>v \<in> dom (g_cost s). gval s' v \<le> gval s v" by blast
  let ?phi = "\<lambda>t c. if c \<in> dom (g_cost t) then nat (gval t c) else card ?grid"
  have le: "?phi s' c \<le> ?phi s c" if "c \<noteq> nb" for c
    using that dom' gv_other [OF that] by simp
  have lt: "?phi s' nb < ?phi s nb"
  proof (cases "nb \<in> ?D")
    case True
    with upd have "gc + 1 < gval s nb" by simp
    with gc0 True dom' gv_nb show ?thesis by simp
  next
    case False
    with nbR sub have "?D \<subset> ?grid" by auto
    then have "card ?D < card ?grid"
      by (intro psubset_card_mono) (simp_all add: finite_grid)
    with gcb have "gc + 1 < int (card ?grid) + 1" by simp
    moreover from gcb \<open>card ?D < card ?grid\<close> have "gc + 1 \<le> int (card ?D)" by simp
    ultimately have "nat (gc + 1) < card ?grid"
      using \<open>card ?D < card ?grid\<close> gc0 by linarith
    with False dom' gv_nb show ?thesis by simp
  qed
  have "(\<Sum>c \<in> ?grid. ?phi s' c) < (\<Sum>c \<in> ?grid. ?phi s c)"
  proof (rule sum_strict_mono_ex1)
    show "finite ?grid" by (rule finite_grid)
    show "\<forall>c \<in> ?grid. ?phi s' c \<le> ?phi s c"
    proof
      fix c assume "c \<in> ?grid"
      show "?phi s' c \<le> ?phi s c"
      proof (cases "c = nb")
        case True
        from lt show ?thesis unfolding True by (rule less_imp_le)
      next
        case False
        then show ?thesis by (rule le)
      qed
    qed
    show "\<exists>c \<in> ?grid. ?phi s' c < ?phi s c"
      using lt nbR by (intro bexI [of _ nb]) simp_all
  qed
  then show "astar_pot m s' < astar_pot m s"
    by (simp add: astar_pot_def)
qed

lemma astar_pot_open_set [simp]: "astar_pot m (s\<lparr>open_set := xs\<rparr>) = astar_pot m s"
  by (simp add: astar_pot_def cong: if_cong)

lemma astar_inv_relax:
  assumes inv: "astar_inv m start target {cur} s"
    and cur: "cur \<in> dom (g_cost s)"
    and pass: "passage m cur nb"
  shows "\<exists>s'. astar_relax target cur (Inr s) nb = Inr s' \<and>
           astar_inv m start target {cur} s' \<and>
           dom (g_cost s) \<subseteq> dom (g_cost s') \<and>
           (\<forall>v \<in> dom (g_cost s). gval s' v \<le> gval s v) \<and>
           gval s' cur = gval s cur \<and>
           nb \<in> dom (g_cost s') \<and> gval s' nb \<le> gval s cur + 1 \<and>
           (s' = s \<or> astar_pot m s' < astar_pot m s)"
proof -
  from cur obtain gc where gc: "g_cost s cur = Some gc" by auto
  have ne: "nb \<noteq> cur" using passage_neq [OF pass] by simp
  show ?thesis
  proof (cases "nb \<in> dom (g_cost s) \<longrightarrow> gc + 1 < gval s nb")
    case True
    let ?s' = "s\<lparr>open_set := heappush (open_set s) (gc + 1 + h nb target, nb),
                  g_cost := (g_cost s)(nb \<mapsto> gc + 1),
                  astar_parent := (astar_parent s)(nb \<mapsto> cur)\<rparr>"
    note u = astar_inv_update [OF inv gc pass True]
    have "astar_relax target cur (Inr s) nb = Inr ?s'"
      by (rule astar_relax_update [OF gc True])
    moreover have "dom (g_cost s) \<subseteq> dom (g_cost ?s')" by auto
    moreover have "gval ?s' cur = gval s cur" using ne by simp
    moreover have "nb \<in> dom (g_cost ?s')" by simp
    moreover have "gval ?s' nb \<le> gval s cur + 1" using gc by simp
    ultimately show ?thesis using u by blast
  next
    case False
    then obtain gn where gn: "g_cost s nb = Some gn" "\<not> gc + 1 < gn" by auto
    have "astar_relax target cur (Inr s) nb = Inr s"
      by (rule astar_relax_skip [OF gc gn])
    moreover have "nb \<in> dom (g_cost s)" using gn(1) by auto
    moreover have "gval s nb \<le> gval s cur + 1" using gn gc by simp
    ultimately show ?thesis using inv by blast
  qed
qed

lemma astar_inv_fold:
  assumes "astar_inv m start target {cur} s"
    and "cur \<in> dom (g_cost s)"
    and "\<forall>b \<in> set ns. passage m cur b"
  shows "\<exists>s'. foldl (astar_relax target cur) (Inr s) ns = Inr s' \<and>
           astar_inv m start target {cur} s' \<and>
           dom (g_cost s) \<subseteq> dom (g_cost s') \<and>
           (\<forall>v \<in> dom (g_cost s). gval s' v \<le> gval s v) \<and>
           gval s' cur = gval s cur \<and>
           (\<forall>b \<in> set ns. b \<in> dom (g_cost s') \<and> gval s' b \<le> gval s cur + 1) \<and>
           (s' = s \<or> astar_pot m s' < astar_pot m s)"
  using assms
proof (induction ns arbitrary: s)
  case Nil
  then show ?case by simp
next
  case (Cons a ns)
  from Cons.prems(3) have pa: "passage m cur a" and rest: "\<forall>b \<in> set ns. passage m cur b"
    by simp_all
  from astar_inv_relax [OF Cons.prems(1,2) pa] obtain s1 where
    s1: "astar_relax target cur (Inr s) a = Inr s1"
      "astar_inv m start target {cur} s1"
      "dom (g_cost s) \<subseteq> dom (g_cost s1)"
      "\<forall>v \<in> dom (g_cost s). gval s1 v \<le> gval s v"
      "gval s1 cur = gval s cur"
      "a \<in> dom (g_cost s1)" "gval s1 a \<le> gval s cur + 1"
      "s1 = s \<or> astar_pot m s1 < astar_pot m s"
    by blast
  have c1: "cur \<in> dom (g_cost s1)" using s1(3) Cons.prems(2) by auto
  from Cons.IH [OF s1(2) c1 rest] obtain s' where
    s': "foldl (astar_relax target cur) (Inr s1) ns = Inr s'"
      "astar_inv m start target {cur} s'"
      "dom (g_cost s1) \<subseteq> dom (g_cost s')"
      "\<forall>v \<in> dom (g_cost s1). gval s' v \<le> gval s1 v"
      "gval s' cur = gval s1 cur"
      "\<forall>b \<in> set ns. b \<in> dom (g_cost s') \<and> gval s' b \<le> gval s1 cur + 1"
      "s' = s1 \<or> astar_pot m s' < astar_pot m s1"
    by blast
  have 1: "foldl (astar_relax target cur) (Inr s) (a # ns) = Inr s'"
    by (simp add: s1(1) s'(1))
  have 2: "dom (g_cost s) \<subseteq> dom (g_cost s')" using s1(3) s'(3) by blast
  have 3: "\<forall>v \<in> dom (g_cost s). gval s' v \<le> gval s v"
  proof
    fix v assume v: "v \<in> dom (g_cost s)"
    with s1(3) have "v \<in> dom (g_cost s1)" by blast
    with s'(4) have "gval s' v \<le> gval s1 v" by blast
    also from s1(4) v have "\<dots> \<le> gval s v" by blast
    finally show "gval s' v \<le> gval s v" .
  qed
  have 4: "gval s' cur = gval s cur" using s1(5) s'(5) by simp
  have 5: "a \<in> dom (g_cost s') \<and> gval s' a \<le> gval s cur + 1"
  proof -
    from s1(6) s'(3) have "a \<in> dom (g_cost s')" by blast
    moreover from s1(6) s'(4) have "gval s' a \<le> gval s1 a" by blast
    ultimately show ?thesis using s1(7) by simp
  qed
  have 6: "\<forall>b \<in> set ns. b \<in> dom (g_cost s') \<and> gval s' b \<le> gval s cur + 1"
    using s'(6) s1(5) by simp
  have 7: "s' = s \<or> astar_pot m s' < astar_pot m s"
    using s1(8) s'(7) by auto
  from 5 6 have 8: "\<forall>b \<in> set (a # ns). b \<in> dom (g_cost s') \<and> gval s' b \<le> gval s cur + 1"
    by simp
  from 1 s'(2) 2 3 4 8 7 show ?case by blast
qed

lemma astar_inv_close:
  assumes "astar_inv m start target {cur} s"
    and "\<forall>b. passage m cur b \<longrightarrow> b \<in> dom (g_cost s) \<and> gval s b \<le> gval s cur + 1"
  shows "astar_inv m start target {} s"
proof -
  from assms(1) have tree: "astar_tree m start s" and hp: "astar_heap start target s"
    and op: "astar_open m target {cur} s"
    by (simp_all add: astar_inv_def)
  from op have others: "\<forall>n \<in> dom (g_cost s). n \<noteq> cur \<longrightarrow>
        (\<forall>b. passage m n b \<longrightarrow> b \<in> dom (g_cost s) \<and> gval s b \<le> gval s n + 1) \<or>
        (\<exists>f. (f, n) \<in> set (open_set s) \<and> f \<le> gval s n + h n target)"
    unfolding astar_open_def by simp
  have "astar_open m target {} s"
    unfolding astar_open_def
  proof (intro ballI impI)
    fix n assume n: "n \<in> dom (g_cost s)"
    show "(\<forall>b. passage m n b \<longrightarrow> b \<in> dom (g_cost s) \<and> gval s b \<le> gval s n + 1) \<or>
          (\<exists>f. (f, n) \<in> set (open_set s) \<and> f \<le> gval s n + h n target)"
    proof (cases "n = cur")
      case True
      with assms(2) show ?thesis by blast
    next
      case False
      with others n show ?thesis by blast
    qed
  qed
  with tree hp show ?thesis by (simp add: astar_inv_def)
qed

lemma astar_frontier:
  assumes inv: "astar_inv m start target {} s"
    and "chain m (q @ r)" and "q \<noteq> []" and "hd q = start" and "last (q @ r) = target"
  shows "(last q \<in> dom (g_cost s) \<and> gval s (last q) + 1 \<le> int (length q)) \<or>
         (\<exists>e \<in> set (open_set s). fst e + 1 \<le> int (length (q @ r)))"
  using assms(2-)
proof (induction q arbitrary: r rule: rev_induct)
  case Nil
  then show ?case by simp
next
  case (snoc b q)
  from inv have tree: "astar_tree m start s" and op: "astar_open m target {} s"
    by (simp_all add: astar_inv_def)
  show ?case
  proof (cases "q = []")
    case True
    with snoc.prems have b: "b = start" by simp
    from tree have "g_cost s start = Some 0" by (simp add: astar_tree_def)
    then have "start \<in> dom (g_cost s)" "gval s start = 0" by auto
    with b True show ?thesis by simp
  next
    case False
    from snoc.prems(1) have ch: "chain m (q @ b # r)" by simp
    then have chq: "chain m (q @ [b])" and chr: "chain m (b # r)"
      using chain_append_cons [of m q b r] by blast+
    from chq False have pass: "passage m (last q) b"
      by (simp add: chain_snoc)
    from snoc.prems have hq: "hd q = start" and lt: "last (q @ b # r) = target"
      using False by simp_all
    have len: "length ((q @ [b]) @ r) = length (q @ b # r)" by simp
    from snoc.IH [OF ch False hq lt] consider
      (seen) "last q \<in> dom (g_cost s)" "gval s (last q) + 1 \<le> int (length q)" |
      (front) e where "e \<in> set (open_set s)" "fst e + 1 \<le> int (length (q @ b # r))"
      by blast
    then show ?thesis
    proof cases
      case seen
      from op seen(1) consider
        (closed) "\<forall>c. passage m (last q) c \<longrightarrow>
                    c \<in> dom (g_cost s) \<and> gval s c \<le> gval s (last q) + 1" |
        (entry) f where "(f, last q) \<in> set (open_set s)"
                  "f \<le> gval s (last q) + h (last q) target"
        unfolding astar_open_def by blast
      then show ?thesis
      proof cases
        case closed
        with pass have "b \<in> dom (g_cost s)" "gval s b \<le> gval s (last q) + 1" by blast+
        with seen(2) show ?thesis by simp
      next
        case entry
        have "chain m (last q # b # r)" using pass chr by simp
        from chain_h [OF this] have "h (last q) (last (b # r)) \<le> int (length (b # r))"
          by simp
        moreover have "last (b # r) = target" using lt by simp
        ultimately have "h (last q) target \<le> int (length r) + 1" by simp
        with entry(2) seen(2) have "f + 1 \<le> int (length (q @ b # r))" by simp
        with entry(1) show ?thesis
          unfolding len by (intro disjI2 bexI [of _ "(f, last q)"]) simp_all
      qed
    next
      case front
      then show ?thesis unfolding len by blast
    qed
  qed
qed

lemma astar_loop_correct:
  assumes "astar_inv m start target {} s"
  shows "\<exists>s'. astar_loop m target s = Some (Inr s') \<and> astar_tree m start s' \<and>
           (\<forall>q. path_between m start target q \<longrightarrow>
                target \<in> dom (g_cost s') \<and> gval s' target + 1 \<le> int (length q))"
proof -
  let ?R = "measures [astar_pot m, \<lambda>s. length (open_set s)]"
  have wf: "wf ?R" by simp
  from wf assms show ?thesis
  proof (induction s rule: wf_induct_rule)
    case (less s)
    note inv = less.prems
    from inv have tree: "astar_tree m start s" and hp: "astar_heap start target s"
      by (simp_all add: astar_inv_def)
    show ?case
    proof (cases "open_set s")
      case Nil
      have run: "astar_loop m target s = Some (Inr s)"
        using Nil by (subst astar_loop.simps) simp
      have "target \<in> dom (g_cost s) \<and> gval s target + 1 \<le> int (length q)"
        if "path_between m start target q" for q
      proof -
        from that have q: "chain m (q @ [])" "q \<noteq> []" "hd q = start" "last (q @ []) = target"
          by (simp_all add: path_between_def)
        from astar_frontier [OF inv q] Nil q(4) show ?thesis by simp
      qed
      with run tree show ?thesis by blast
    next
      case (Cons e rest)
      let ?cur = "snd e"
      let ?s1 = "s\<lparr>open_set := rest\<rparr>"
      from hp Cons have curD: "?cur \<in> dom (g_cost s)"
        and ebound: "?cur = start \<or> gval s ?cur + h ?cur target \<le> fst e"
        and srt: "sorted (e # rest)"
        by (simp_all add: astar_heap_def)
      show ?thesis
      proof (cases "?cur = target")
        case True
        have run: "astar_loop m target s = Some (Inr ?s1)"
          using Cons True by (subst astar_loop.simps) (simp add: Let_def)
        have t1: "astar_tree m start ?s1"
          using tree by (simp add: astar_tree_def)
        have tD: "target \<in> dom (g_cost ?s1)" using curD True by simp
        have opt: "gval ?s1 target + 1 \<le> int (length q)" if "path_between m start target q" for q
        proof -
          from that have q: "chain m (q @ [])" "q \<noteq> []" "hd q = start" "last (q @ []) = target"
            by (simp_all add: path_between_def)
          from astar_frontier [OF inv q] q(4) consider
            "gval s target + 1 \<le> int (length q)" |
            e' where "e' \<in> set (open_set s)" "fst e' + 1 \<le> int (length q)"
            by auto
          then show ?thesis
          proof cases
            case 1
            then show ?thesis by simp
          next
            case 2
            from srt 2(1) Cons have "e \<le> e'" by auto
            then have fe: "fst e \<le> fst e'" by (auto simp: less_eq_prod_def)
            show ?thesis
            proof (cases "target = start")
              case True
              with tree have "gval s target = 0" by (simp add: astar_tree_def)
              with q(2) show ?thesis by (cases q) simp_all
            next
              case False
              with ebound True have "gval s target + h target target \<le> fst e" by simp
              then have "gval s target \<le> fst e" by (simp add: h_def)
              with fe 2(2) show ?thesis by simp
            qed
          qed
        qed
        from run t1 tD opt show ?thesis by blast
      next
        case False
        let ?ns = "ext_get_neighbours m (fst ?cur) (snd ?cur)"
        have ns: "set ?ns = {b. passage m ?cur b}"
          using set_ext_get_neighbours [of m "fst ?cur" "snd ?cur"] by simp
        have inv1: "astar_inv m start target {?cur} ?s1"
          by (rule astar_inv_pop [OF inv Cons])
        have c1: "?cur \<in> dom (g_cost ?s1)" using curD by simp
        have p1: "\<forall>b \<in> set ?ns. passage m ?cur b" using ns by simp
        from astar_inv_fold [OF inv1 c1 p1] obtain s2 where
          s2: "foldl (astar_relax target ?cur) (Inr ?s1) ?ns = Inr s2"
            "astar_inv m start target {?cur} s2"
            "gval s2 ?cur = gval ?s1 ?cur"
            "\<forall>b \<in> set ?ns. b \<in> dom (g_cost s2) \<and> gval s2 b \<le> gval ?s1 ?cur + 1"
            "s2 = ?s1 \<or> astar_pot m s2 < astar_pot m ?s1"
          by blast
        have run: "astar_loop m target s = astar_loop m target s2"
          using Cons False s2(1) by (subst astar_loop.simps) (simp add: Let_def)
        from s2(3,4) ns
        have "\<forall>b. passage m ?cur b \<longrightarrow> b \<in> dom (g_cost s2) \<and> gval s2 b \<le> gval s2 ?cur + 1"
          by auto
        from astar_inv_close [OF s2(2) this]
        have inv2: "astar_inv m start target {} s2" .
        have dec: "(s2, s) \<in> ?R"
          using s2(5) Cons by auto
        from less.IH [OF dec inv2] run show ?thesis by simp
      qed
    qed
  qed
qed

lemma ext_shortest_path_correct:
  assumes "in_range m (default_start starting)"
  shows "\<exists>p. ext_shortest_path m starting goal = Some (Inr p) \<and>
           (if \<exists>q. path_between m (default_start starting) (default_target m goal) q
            then path_between m (default_start starting) (default_target m goal) p \<and>
                 (\<forall>q. path_between m (default_start starting) (default_target m goal) q \<longrightarrow>
                      length p \<le> length q)
            else p = [])"
proof -
  let ?start = "default_start starting" and ?target = "default_target m goal"
  let ?s0 = "\<lparr>open_set = [(0, ?start)], g_cost = [?start \<mapsto> 0], astar_parent = Map.empty\<rparr>"
  from astar_loop_correct [OF astar_inv_init [OF assms, of ?target]] obtain s' where
    run: "astar_loop m ?target ?s0 = Some (Inr s')"
    and tree: "astar_tree m ?start s'"
    and opt: "\<forall>q. path_between m ?start ?target q \<longrightarrow>
                 ?target \<in> dom (g_cost s') \<and> gval s' ?target + 1 \<le> int (length q)"
    by blast
  show ?thesis
  proof (cases "?target \<in> dom (g_cost s')")
    case False
    with opt have none: "\<not> (\<exists>q. path_between m ?start ?target q)" by blast
    have "ext_shortest_path m starting goal = Some (Inr [])"
      using run False by (simp add: ext_shortest_path_def Let_def)
    with none show ?thesis by simp
  next
    case True
    let ?rank = "\<lambda>c. nat (gval s' c)"
    have step: "\<exists>p. astar_parent s' n = Some p \<and> p \<in> dom (g_cost s') \<and> passage m p n \<and>
                   ?rank p < ?rank n"
      if "n \<in> dom (g_cost s')" "n \<noteq> ?start" for n
    proof -
      from tree that obtain p where
        p: "astar_parent s' n = Some p" "p \<in> dom (g_cost s')" "passage m p n"
          "gval s' p + 1 \<le> gval s' n"
        unfolding astar_tree_def by blast
      from tree p(2) have "0 \<le> gval s' p" unfolding astar_tree_def by blast
      with p(4) have "?rank p < ?rank n" by simp
      with p(1,2,3) show ?thesis by blast
    qed
    from reconstruct_tree [of "dom (g_cost s')" ?start "astar_parent s'" m ?rank ?target,
        OF step True]
    obtain p where p: "reconstruct (astar_parent s') ?start ?target = Some (Inr p)"
      "path_between m ?start ?target p" "length p \<le> ?rank ?target + 1"
      by blast
    have res: "ext_shortest_path m starting goal = Some (Inr p)"
      using run True p(1) by (simp add: ext_shortest_path_def Let_def)
    have "length p \<le> length q" if "path_between m ?start ?target q" for q
    proof -
      from opt that have "gval s' ?target + 1 \<le> int (length q)" by blast
      moreover from tree True have "0 \<le> gval s' ?target" unfolding astar_tree_def by blast
      ultimately show ?thesis using p(3) by linarith
    qed
    with res p(2) show ?thesis by auto
  qed
qed

section \<open>The shortest paths returned\<close>



text \<open>
  Claim C1. From a start cell of the maze to a goal that some path reaches, both
  \<open>shortest_path\<close> methods (breadth-first search and A*) return a path: a non-empty list of
  cells that begins at the start, ends at the goal, and in which every cell is followed by a
  neighbour with no wall between the two (\<open>path_between\<close>). No path from the start to the
  goal is shorter than either of the two returned.
\<close>

theorem shortest_path_minimal:
  assumes "in_range m (default_start starting)"
    and "path_between m (default_start starting) (default_target m goal) q"
  shows "\<exists>p p'. basic_shortest_path m starting goal = Some (Inr p) \<and>
           ext_shortest_path m starting goal = Some (Inr p') \<and>
           path_between m (default_start starting) (default_target m goal) p \<and>
           path_between m (default_start starting) (default_target m goal) p' \<and>
           (\<forall>q'. path_between m (default_start starting) (default_target m goal) q' \<longrightarrow>
                 length p \<le> length q' \<and> length p' \<le> length q')"
proof -
  let ?P = "\<lambda>q. path_between m (default_start starting) (default_target m goal) q"
  from assms(2) have ex: "\<exists>q. ?P q" by blast
  from basic_shortest_path_correct [OF assms(1), of goal] ex obtain p where
    p: "basic_shortest_path m starting goal = Some (Inr p)" "?P p"
      "\<forall>q. ?P q \<longrightarrow> length p \<le> length q"
    by auto
  from ext_shortest_path_correct [OF assms(1), of goal] ex obtain p' where
    p': "ext_shortest_path m starting goal = Some (Inr p')" "?P p'"
      "\<forall>q. ?P q \<longrightarrow> length p' \<le> length q"
    by auto
  from p p' show ?thesis by blast
qed

text \<open>
  The maze of two by two cells with a wall between \<open>(0, 0)\<close> and \<open>(1, 0)\<close>: from \<open>(0, 0)\<close> to
  \<open>(1, 1)\<close> the one path of three cells goes through \<open>(0, 1)\<close>, and both searches return it.
\<close>

theorem shortest_path_minimal_witness:
  "basic_shortest_path (add_vertical_wall (Maze 2 2) 0 1) None None =
     Some (Inr [(0, 0), (0, 1), (1, 1)]) \<and>
   ext_shortest_path (add_vertical_wall (Maze 2 2) 0 1) None None =
     Some (Inr [(0, 0), (0, 1), (1, 1)])"
proof -
  let ?m = "add_vertical_wall (Maze 2 2) 0 1"
  let ?q = "[(0, 0), (0, 1), (1, 1)] :: cell list"
  have s: "default_start None = (0, 0)" and t: "default_target ?m None = (1, 1)"
    by (simp_all add: default_start_def default_target_def Maze_def add_vertical_wall_def)
  have r: "in_range ?m (default_start None)"
    by (simp add: s Maze_def add_vertical_wall_def)
  have pass: "passage ?m (0, 0) b \<longleftrightarrow> b = (0, 1)" for b
    by (auto simp: passage_def get_walls_simp Maze_def add_vertical_wall_def)
  have "path_between ?m (0, 0) (1, 1) ?q"
    by (simp add: path_between_def passage_def get_walls_simp Maze_def add_vertical_wall_def)
  then have pq: "path_between ?m (default_start None) (default_target ?m None) ?q"
    unfolding s t .
  have uniq: "p = ?q" if p: "path_between ?m (0, 0) (1, 1) p" and len: "length p \<le> length ?q"
    for p
  proof -
    from p obtain p1 where p1: "p = (0, 0) # p1"
      by (cases p) (auto simp: path_between_def)
    with p obtain p2 where p2: "p1 = (0, 1) # p2"
      by (cases p1) (auto simp: path_between_def pass)
    with p p1 len obtain c where c: "p2 = [c]"
      by (cases p2; cases "tl p2") (auto simp: path_between_def)
    with p p1 p2 show ?thesis by (simp add: path_between_def)
  qed
  from shortest_path_minimal [OF r pq] obtain p p' where
    res: "basic_shortest_path ?m None None = Some (Inr p)"
      "ext_shortest_path ?m None None = Some (Inr p')"
    and pp: "path_between ?m (0, 0) (1, 1) p" "path_between ?m (0, 0) (1, 1) p'"
    and mn: "\<forall>q'. path_between ?m (0, 0) (1, 1) q' \<longrightarrow>
                 length p \<le> length q' \<and> length p' \<le> length q'"
    unfolding s t by blast
  from mn pq have "length p \<le> length ?q" "length p' \<le> length ?q"
    unfolding s t by blast+
  with pp have "p = ?q" "p' = ?q" by (simp_all add: uniq)
  with res show ?thesis by simp
qed



end
